theory Spec2Isabelle
  imports Main "HOL-Library.AList"
begin

section \<open>Category normalisation (category.ts)\<close>

text \<open>
  \<^verbatim>\<open>MaybeCategory = string | null | undefined | readonly MaybeCategory[]\<close>.
  A \<^verbatim>\<open>Category\<close> is a value of this type without \<^verbatim>\<open>null\<close> and \<^verbatim>\<open>undefined\<close>.
\<close>

datatype maybe_category = Str string | Null | Undefined | Arr "maybe_category list"

text \<open>
  \<^verbatim>\<open>deepFlatten\<close>: a string is returned as a one-element list (also the empty string,
  the test for a string comes before the test for a falsy value), \<^verbatim>\<open>null\<close> and
  \<^verbatim>\<open>undefined\<close> give the empty list, an array is flat-mapped.
\<close>

fun deepFlatten :: "maybe_category \<Rightarrow> string list" where
  "deepFlatten (Str s) = [s]"
| "deepFlatten Null = []"
| "deepFlatten Undefined = []"
| "deepFlatten (Arr items) =
     concat (map (\<lambda>item. case item of Str s \<Rightarrow> [s] | _ \<Rightarrow> deepFlatten item) items)"

definition getCategoryList :: "maybe_category \<Rightarrow> string list" where
  "getCategoryList category = deepFlatten category"

text \<open>
  The two readings of the specification's normalisation, written from its words: the
  string leaves in left-to-right, depth-first order with absent leaves dropped, and the
  same with the empty leaves dropped as well.
\<close>

fun spec_string_leaves :: "maybe_category \<Rightarrow> string list" where
  "spec_string_leaves (Str s) = [s]"
| "spec_string_leaves Null = []"
| "spec_string_leaves Undefined = []"
| "spec_string_leaves (Arr items) = concat (map spec_string_leaves items)"

fun spec_nonempty_leaves :: "maybe_category \<Rightarrow> string list" where
  "spec_nonempty_leaves (Str s) = (if s = [] then [] else [s])"
| "spec_nonempty_leaves Null = []"
| "spec_nonempty_leaves Undefined = []"
| "spec_nonempty_leaves (Arr items) = concat (map spec_nonempty_leaves items)"


section \<open>Values, log records and user code\<close>

datatype js_error = TypeError string | RangeError string | Error string

datatype raw_message = RawString string | RawTemplate "string list"

text \<open>
  A \<^verbatim>\<open>LogRecord\<close> object. Its \<^verbatim>\<open>properties\<close> are either a data property or the
  accessor that \<^verbatim>\<open>_log\<close> installs (it closes over the logger \<^verbatim>\<open>this\<close>, over the raw
  message in \<^verbatim>\<open>baseRecord\<close> and over the \<^verbatim>\<open>properties\<close> argument; the other fields of
  \<^verbatim>\<open>baseRecord\<close> are those of the record); its \<^verbatim>\<open>message\<close> and \<^verbatim>\<open>rawMessage\<close> are either data
  properties or the two accessors of \<^verbatim>\<open>logLazily\<close> (they close over the callback).
  A callback is an identifier, under which its invocations are counted, together with
  what an invocation does: it throws (\<open>Inl\<close>) or it returns (\<open>Inr\<close>), the properties for
  a properties callback, the template strings and values it hands to the prefix function
  for a message callback (\<open>None\<close> when it returns without calling the prefix function).
  \<open>rec_id\<close> is the identity of the record object.  An object is a list of keys and
  values; sinks are references.
\<close>

datatype jsval =
    JUndefined | JNum int | JStr string | JBool bool
  | JSink nat | JError js_error | JRecord log_record
and prop_arg =
    PropsUndefined
  | PropsObject "(string \<times> jsval) list"
  | PropsCallback nat "js_error + (string \<times> jsval) list"
and props_field =
    PropsData "(string \<times> jsval) list option"
  | PropsGetter nat string prop_arg
and msg_field =
    MsgData "jsval list" raw_message
  | MsgGetter nat "js_error + (string list \<times> jsval list) option"
and log_record =
    LogRecord (rec_id: nat) (rec_category: "string list") (rec_level: string)
      (rec_timestamp: nat) (rec_msg: msg_field) (rec_props: props_field)

type_synonym props = "(string \<times> jsval) list"

text \<open>The fields of a record that are plain data in every record.\<close>

record log_header =
  h_category :: "string list"
  h_level :: string
  h_timestamp :: nat

definition header_of :: "log_record \<Rightarrow> log_header" where
  "header_of r =
     \<lparr>h_category = rec_category r, h_level = rec_level r, h_timestamp = rec_timestamp r\<rparr>"

text \<open>
  User code (a filter or a sink) applied to a record: it sees the plain fields, it may
  read \<^verbatim>\<open>record.properties\<close> and \<^verbatim>\<open>record.message\<close>/\<^verbatim>\<open>record.rawMessage\<close> any
  number of times, and it returns a value or throws.  A read gives the continuation the
  value read; when the accessor throws, the exception leaves the user code.
\<close>

datatype 'a user_code =
    Ret 'a
  | Throw js_error
  | ReadProps "props option \<Rightarrow> 'a user_code"
  | ReadMessage "jsval list \<Rightarrow> raw_message \<Rightarrow> 'a user_code"

type_synonym filter_fn = "log_header \<Rightarrow> bool user_code"
type_synonym sink_fn = "log_header \<Rightarrow> unit user_code"

section \<open>Level filters (filter.ts)\<close>

datatype filter_like = FilterFn filter_fn | FilterLevel string | FilterNull

definition levelsOrder :: "string list" where
  "levelsOrder = [''fatal'', ''critical'', ''error'', ''warning'', ''info'', ''debug'']"

definition levelsOrderMap :: "string \<Rightarrow> nat option" where
  "levelsOrderMap = map_of (zip levelsOrder [0..<length levelsOrder])"

definition getLevelIndex :: "string \<Rightarrow> js_error + nat" where
  "getLevelIndex level =
     (case levelsOrderMap level of
        None \<Rightarrow> Inl (TypeError (''Invalid log level: '' @ level @ ''.''))
      | Some index \<Rightarrow> Inr index)"

text \<open>The argument is \<open>None\<close> for \<^verbatim>\<open>null\<close>.\<close>

definition getLevelFilter :: "string option \<Rightarrow> js_error + filter_fn" where
  "getLevelFilter level =
     (case level of
        None \<Rightarrow> Inr (\<lambda>_. Ret False)
      | Some l \<Rightarrow>
          if l = ''debug'' then Inr (\<lambda>_. Ret True)
          else (case getLevelIndex l of
                  Inl e \<Rightarrow> Inl e
                | Inr levelIndex \<Rightarrow>
                    Inr (\<lambda>record.
                      case getLevelIndex (h_level record) of
                        Inl e \<Rightarrow> Throw e
                      | Inr recordLevelIndex \<Rightarrow> Ret (levelIndex \<ge> recordLevelIndex))))"

definition toFilter :: "filter_like \<Rightarrow> js_error + filter_fn" where
  "toFilter filter' =
     (case filter' of
        FilterFn f \<Rightarrow> Inr f
      | FilterLevel l \<Rightarrow> getLevelFilter (Some l)
      | FilterNull \<Rightarrow> getLevelFilter None)"

text \<open>
  The severity scale in the specification's words: debug < info < warning < error <
  critical < fatal.
\<close>

definition spec_severity :: "string \<Rightarrow> nat" where
  "spec_severity l =
     (if l = ''debug'' then 0 else if l = ''info'' then 1 else if l = ''warning'' then 2
      else if l = ''error'' then 3 else if l = ''critical'' then 4 else 5)"

section \<open>The logger tree (logger.ts)\<close>

text \<open>
  \<^verbatim>\<open>mergeProperties\<close>: both operands are objects or \<^verbatim>\<open>undefined\<close>; the object literal
  \<^verbatim>\<open>{ ...defaultProperties, ...properties }\<close> copies the first object and then assigns
  the keys of the second one.
\<close>

definition spread :: "props \<Rightarrow> props \<Rightarrow> props" where
  "spread d p = fold (\<lambda>(k, v). AList.update k v) p d"

definition mergeProperties :: "props option \<Rightarrow> props option \<Rightarrow> props option" where
  "mergeProperties defaultProperties properties =
     (case (defaultProperties, properties) of
        (Some d, Some p) \<Rightarrow> Some (spread d p)
      | (Some d, None) \<Rightarrow> Some d
      | (None, _) \<Rightarrow> properties)"

record raw_log_record =
  raw_category :: "string list"
  raw_level :: string
  raw_rawMessage :: raw_message
  raw_timestamp :: nat
  raw_properties :: "props option"

text \<open>A property transformer returns the new properties or throws.\<close>

type_synonym prop_transformer = "raw_log_record \<Rightarrow> js_error + props option"

datatype sink_policy = Inherit | Override

text \<open>
  A \<^verbatim>\<open>LoggerImpl\<close> object.  Loggers are objects with identity: they live in a heap, a
  list of objects, and a reference is an index into it.  \<open>children\<close> holds the own
  properties of the object \<^verbatim>\<open>children\<close>: it maps a name to the reference stored under
  it.  The model has no garbage collection, so dereferencing a child reference always
  gives the child.  Sinks are references into a table of sink functions.
\<close>

record logger =
  parent :: "nat option"
  category :: "string list"
  children :: "string \<Rightarrow> nat option"
  sinks :: "nat list"
  parentSinks :: sink_policy
  filters :: "filter_fn list"
  propTransformers :: "prop_transformer list"
  properties :: "props option"

text \<open>
  The heap and the global \<^verbatim>\<open>globalThis[globalRootLoggerSymbol]\<close>.
\<close>

record registry =
  objs :: "logger list"
  rootLogger :: "nat option"

definition empty_registry :: registry where
  "empty_registry = \<lparr>objs = [], rootLogger = None\<rparr>"

text \<open>
  \<^verbatim>\<open>children\<close> is initialised with the object literal \<^verbatim>\<open>{}\<close>, an object without own
  properties whose prototype is \<^verbatim>\<open>Object.prototype\<close>.  Reading \<^verbatim>\<open>this.children[name]\<close>
  gives the own property of that name if there is one, and otherwise the member that
  \<^verbatim>\<open>Object.prototype\<close> has under that name: one of its methods, or the prototype object
  itself for \<^verbatim>\<open>__proto__\<close>.  Such a member is not \<^verbatim>\<open>undefined\<close>, is not a
  \<^verbatim>\<open>LoggerImpl\<close> and has no method \<^verbatim>\<open>deref\<close>.
\<close>

definition object_prototype_keys :: "string list" where
  "object_prototype_keys =
     [''constructor'', ''__defineGetter__'', ''__defineSetter__'', ''hasOwnProperty'',
      ''__lookupGetter__'', ''__lookupSetter__'', ''isPrototypeOf'', ''propertyIsEnumerable'',
      ''toString'', ''valueOf'', ''__proto__'', ''toLocaleString'']"

datatype child_ref = NoRef | LoggerRef nat | InheritedMember

definition children_get :: "(string \<Rightarrow> nat option) \<Rightarrow> string \<Rightarrow> child_ref" where
  "children_get own name =
     (case own name of
        Some c \<Rightarrow> LoggerRef c
      | None \<Rightarrow> if name \<in> set object_prototype_keys then InheritedMember else NoRef)"

text \<open>
  The constructor: the new object is appended to the heap; its \<^verbatim>\<open>children\<close> has no own
  property.
\<close>

definition new_LoggerImpl ::
  "registry \<Rightarrow> nat option \<Rightarrow> string list \<Rightarrow> props option \<Rightarrow> nat \<times> registry" where
  "new_LoggerImpl st parent' category' properties' =
     (let obj = \<lparr>parent = parent', category = category', children = (\<lambda>_. None), sinks = [],
                 parentSinks = Inherit, filters = [], propTransformers = [],
                 properties =
                   mergeProperties
                     (case parent' of None \<Rightarrow> None | Some p \<Rightarrow> properties (objs st ! p))
                     properties'\<rparr>
      in (length (objs st), st\<lparr>objs := objs st @ [obj]\<rparr>))"

text \<open>\<^verbatim>\<open>with(properties)\<close>.\<close>

definition with_props :: "registry \<Rightarrow> nat \<Rightarrow> props \<Rightarrow> nat \<times> registry" where
  "with_props st this properties' =
     new_LoggerImpl st (Some this) (category (objs st ! this)) (Some properties')"

text \<open>\<^verbatim>\<open>!subcategory\<close> for a \<^verbatim>\<open>MaybeCategory\<close>: an array is truthy, also the empty one.\<close>

fun falsy :: "maybe_category \<Rightarrow> bool" where
  "falsy Null = True"
| "falsy Undefined = True"
| "falsy (Str s) = (s = [])"
| "falsy (Arr _) = False"

text \<open>
  \<^verbatim>\<open>getChild(subcategory, properties)\<close>.  The result is \<open>None\<close> when the call does not
  return; otherwise it is the logger returned or the exception thrown, with the registry
  after the call.  \<open>name\<close> is \<^verbatim>\<open>subcategoryList[0]\<close>, which is \<^verbatim>\<open>undefined\<close> for the
  empty list; \<^verbatim>\<open>!name\<close> holds for \<^verbatim>\<open>undefined\<close> and for the empty string.  When
  \<^verbatim>\<open>childRef\<close> is a member inherited from \<^verbatim>\<open>Object.prototype\<close>, the call
  \<^verbatim>\<open>childRef?.deref()\<close> throws a \<^verbatim>\<open>TypeError\<close>; the wording of its message is the
  engine's, and the model fixes one.
\<close>

partial_function (option) getChild ::
  "registry \<Rightarrow> nat \<Rightarrow> maybe_category \<Rightarrow> props option
    \<Rightarrow> ((js_error + nat) \<times> registry) option" where
  "getChild st this subcategory properties' =
     (if falsy subcategory then
        (case properties' of
           Some p \<Rightarrow> (case with_props st this p of (b, st') \<Rightarrow> Some (Inr b, st'))
         | None \<Rightarrow> Some (Inr this, st))
      else
        let subcategoryList = getCategoryList subcategory;
            name = (case subcategoryList of [] \<Rightarrow> None | n # _ \<Rightarrow> Some n);
            childRef = (case name of
                          None \<Rightarrow> NoRef
                        | Some n \<Rightarrow>
                            if n = [] then NoRef else children_get (children (objs st ! this)) n)
        in case childRef of
             InheritedMember \<Rightarrow>
               Some (Inl (TypeError ''childRef.deref is not a function''), st)
           | _ \<Rightarrow>
               let (child, st') =
                     (case name of
                        None \<Rightarrow> (this, st)
                      | Some n \<Rightarrow>
                          if n = [] then (this, st)
                          else (case childRef of
                                  LoggerRef c \<Rightarrow> (c, st)
                                | _ \<Rightarrow>
                                    let (c, st1) =
                                          new_LoggerImpl st (Some this)
                                            (category (objs st ! this) @ [n]) None
                                    in (c, st1\<lparr>objs := (objs st1)
                                          [this := (objs st1 ! this)
                                             \<lparr>children :=
                                                (children (objs st1 ! this))(n \<mapsto> c)\<rparr>]\<rparr>)))
               in if length subcategoryList = 1 then Some (Inr child, st')
                  else getChild st' child (Arr (map Str (drop 1 subcategoryList))) None)"

text \<open>
  \<^verbatim>\<open>category.length\<close>: the length of a string or of an array; reading it from
  \<^verbatim>\<open>null\<close> or \<^verbatim>\<open>undefined\<close> throws.
\<close>

fun category_length :: "maybe_category \<Rightarrow> nat option" where
  "category_length (Str s) = Some (length s)"
| "category_length (Arr xs) = Some (length xs)"
| "category_length Null = None"
| "category_length Undefined = None"

text \<open>
  \<^verbatim>\<open>LoggerImpl.getLogger(category = [])\<close>: \<open>Undefined\<close> is the omitted argument, for which
  the default value is taken.  As for \<^verbatim>\<open>getChild\<close>, the result is \<open>None\<close> when the call
  does not return.
\<close>

definition getLogger ::
  "registry \<Rightarrow> maybe_category \<Rightarrow> ((js_error + nat) \<times> registry) option" where
  "getLogger st category0 =
     (let category' = (case category0 of Undefined \<Rightarrow> Arr [] | c \<Rightarrow> c);
          (root, st') =
            (case rootLogger st of
               Some r \<Rightarrow> (r, st)
             | None \<Rightarrow> let (r, st1) = new_LoggerImpl st None [] None
                       in (r, st1\<lparr>rootLogger := Some r\<rparr>))
      in case category_length category' of
           None \<Rightarrow> Some (Inl (TypeError ''Cannot read properties of null''), st')
         | Some n \<Rightarrow>
             if n = 0 then Some (Inr root, st') else getChild st' root category' None)"

section \<open>Inheritance: filters, property transformers, sinks\<close>

text \<open>
  \<^verbatim>\<open>parent\<close> is a read-only field that the constructor sets to an object that exists
  already, so the parent of an object is at a smaller address.  The functions that walk
  up the tree read the parent through \<open>parent_of\<close>.
\<close>

definition parent_of :: "logger list \<Rightarrow> nat \<Rightarrow> nat option" where
  "parent_of h this =
     (case parent (h ! this) of
        None \<Rightarrow> None
      | Some p \<Rightarrow> if p < this then Some p else None)"

text \<open>
  What the run of user code leaves behind: the number of invocations of every callback,
  the counter for the identities of new records, the clock, and the trace of the
  invocations of sinks (with the record as it is at the call) and of the reads of
  \<^verbatim>\<open>record.properties\<close> (with the value read or the exception thrown) and of
  \<^verbatim>\<open>record.message\<close>, each with the identity of the record.
\<close>

datatype event =
    SinkCall nat log_record
  | PropsRead nat "js_error + props option"
  | MessageRead nat

record world =
  cb_calls :: "nat \<Rightarrow> nat"
  next_id :: nat
  now :: nat
  trace :: "event list"

text \<open>
  \<^verbatim>\<open>propTransform(rawRecord)\<close>: the loop over the logger's own transformers ends at the
  first one that throws; the result is the properties or the exception.
\<close>

fun transform_loop :: "prop_transformer list \<Rightarrow> raw_log_record \<Rightarrow> js_error + raw_log_record" where
  "transform_loop [] resultRecord = Inr resultRecord"
| "transform_loop (propTransform' # rest) resultRecord =
     (case propTransform' resultRecord of
        Inl e \<Rightarrow> Inl e
      | Inr p \<Rightarrow> transform_loop rest (resultRecord\<lparr>raw_properties := p\<rparr>))"

function propTransform ::
  "logger list \<Rightarrow> nat \<Rightarrow> raw_log_record \<Rightarrow> js_error + props option" where
  "propTransform h this rawRecord =
     (if length (propTransformers (h ! this)) < 1 then
        (case parent_of h this of
           None \<Rightarrow> Inr (raw_properties rawRecord)
         | Some p \<Rightarrow>
             (case propTransform h p rawRecord of
                Inl e \<Rightarrow> Inl e
              | Inr None \<Rightarrow> Inr (raw_properties rawRecord)
              | Inr (Some v) \<Rightarrow> Inr (Some v)))
      else
        (case transform_loop (propTransformers (h ! this)) rawRecord of
           Inl e \<Rightarrow> Inl e
         | Inr resultRecord \<Rightarrow> Inr (raw_properties resultRecord)))"
  by pat_completeness auto
termination
  by (relation "measure (\<lambda>(h, this, rawRecord). this)")
    (auto simp: parent_of_def split: option.splits if_splits)

text \<open>\<^verbatim>\<open>*getSinks()\<close>, as the list of the sinks it yields.\<close>

function getSinks :: "logger list \<Rightarrow> nat \<Rightarrow> nat list" where
  "getSinks h this =
     (case parent_of h this of
        None \<Rightarrow> []
      | Some p \<Rightarrow> if parentSinks (h ! this) = Inherit then getSinks h p else [])
     @ sinks (h ! this)"
  by pat_completeness auto
termination
  by (relation "measure (\<lambda>(h, this). this)")
    (auto simp: parent_of_def split: option.splits if_splits)

text \<open>
  The accessor \<^verbatim>\<open>properties\<close> of a record made by \<^verbatim>\<open>_log\<close>:
  \<^verbatim>\<open>getProperties\<close> calls the properties callback, if there is one, merges and
  transforms; the accessor then redefines \<^verbatim>\<open>properties\<close> as a data property with that
  value.  When the callback or a transformer throws, the accessor throws before it
  redefines anything, and the record keeps it.  The raw record is
  \<^verbatim>\<open>{ ...baseRecord, properties }\<close>.
\<close>

definition raw_record :: "log_record \<Rightarrow> string \<Rightarrow> props option \<Rightarrow> raw_log_record" where
  "raw_record r rawMessage p =
     \<lparr>raw_category = rec_category r, raw_level = rec_level r,
      raw_rawMessage = RawString rawMessage, raw_timestamp = rec_timestamp r,
      raw_properties = p\<rparr>"

definition getProperties ::
  "logger list \<Rightarrow> nat \<Rightarrow> log_record \<Rightarrow> string \<Rightarrow> prop_arg \<Rightarrow> world
    \<Rightarrow> (js_error + props option) \<times> world" where
  "getProperties h this r rawMessage properties' w =
     (let (res, w') =
            (case properties' of
               PropsCallback c res \<Rightarrow>
                 (map_sum id Some res, w\<lparr>cb_calls := (cb_calls w)(c := Suc (cb_calls w c))\<rparr>)
             | PropsObject v \<Rightarrow> (Inr (Some v), w)
             | PropsUndefined \<Rightarrow> (Inr None, w))
      in case res of
           Inl e \<Rightarrow> (Inl e, w')
         | Inr p \<Rightarrow>
             (propTransform h this
                (raw_record r rawMessage (mergeProperties (properties (h ! this)) p)),
              w'))"

fun set_props :: "log_record \<Rightarrow> props_field \<Rightarrow> log_record" where
  "set_props (LogRecord i c l t m p) p' = LogRecord i c l t m p'"

fun set_msg :: "log_record \<Rightarrow> msg_field \<Rightarrow> log_record" where
  "set_msg (LogRecord i c l t m p) m' = LogRecord i c l t m' p"

text \<open>Reading \<^verbatim>\<open>record.properties\<close>: the value or the exception.\<close>

definition read_properties ::
  "logger list \<Rightarrow> log_record \<Rightarrow> world \<Rightarrow> (js_error + props option) \<times> log_record \<times> world" where
  "read_properties h r w =
     (let (v, r', w') =
            (case rec_props r of
               PropsData v \<Rightarrow> (Inr v, r, w)
             | PropsGetter this rawMessage properties' \<Rightarrow>
                 (case getProperties h this r rawMessage properties' w of
                    (Inl e, w1) \<Rightarrow> (Inl e, r, w1)
                  | (Inr value, w1) \<Rightarrow> (Inr value, set_props r (PropsData value), w1)))
      in (v, r', w'\<lparr>trace := trace w' @ [PropsRead (rec_id r) v]\<rparr>))"

text \<open>\<^verbatim>\<open>renderMessage(template, values)\<close>.\<close>

fun renderMessage :: "string list \<Rightarrow> jsval list \<Rightarrow> jsval list" where
  "renderMessage [] values = []"
| "renderMessage (t # template) [] = JStr t # renderMessage template []"
| "renderMessage (t # template) (v # values) = JStr t # v # renderMessage template values"

text \<open>
  The accessors \<^verbatim>\<open>message\<close> and \<^verbatim>\<open>rawMessage\<close> of a record made by \<^verbatim>\<open>logLazily\<close>:
  \<^verbatim>\<open>realizeMessage\<close> calls the callback, throws when the callback throws or did not
  call the prefix function, and otherwise redefines both fields as data properties.
\<close>

definition realizeMessage ::
  "log_record \<Rightarrow> nat \<Rightarrow> js_error + (string list \<times> jsval list) option \<Rightarrow> world
    \<Rightarrow> (js_error + jsval list \<times> raw_message) \<times> log_record \<times> world" where
  "realizeMessage r c call w =
     (let w' = w\<lparr>cb_calls := (cb_calls w)(c := Suc (cb_calls w c))\<rparr>
      in case call of
           Inl e \<Rightarrow> (Inl e, r, w')
         | Inr None \<Rightarrow> (Inl (TypeError ''No log record was made.''), r, w')
         | Inr (Some (tpl, values)) \<Rightarrow>
             (Inr (renderMessage tpl values, RawTemplate tpl),
              set_msg r (MsgData (renderMessage tpl values) (RawTemplate tpl)), w'))"

definition read_message ::
  "log_record \<Rightarrow> world \<Rightarrow> (js_error + jsval list \<times> raw_message) \<times> log_record \<times> world" where
  "read_message r w =
     (let w0 = w\<lparr>trace := trace w @ [MessageRead (rec_id r)]\<rparr>
      in case rec_msg r of
           MsgData m raw \<Rightarrow> (Inr (m, raw), r, w0)
         | MsgGetter c call \<Rightarrow> realizeMessage r c call w0)"

text \<open>
  Running user code on a record: the result (\<open>Inl\<close> for an exception), the record
  object and the world afterwards.  An exception of an accessor goes through the user
  code.
\<close>

primrec run ::
  "logger list \<Rightarrow> 'a user_code \<Rightarrow> log_record \<Rightarrow> world \<Rightarrow> (js_error + 'a) \<times> log_record \<times> world" where
  "run h (Ret a) = (\<lambda>r w. (Inr a, r, w))"
| "run h (Throw e) = (\<lambda>r w. (Inl e, r, w))"
| "run h (ReadProps k) =
     (\<lambda>r w. case read_properties h r w of
               (Inl e, r', w') \<Rightarrow> (Inl e, r', w')
             | (Inr v, r', w') \<Rightarrow> run h (k v) r' w')"
| "run h (ReadMessage k) =
     (\<lambda>r w. case read_message r w of
               (Inl e, r', w') \<Rightarrow> (Inl e, r', w')
             | (Inr (m, raw), r', w') \<Rightarrow> run h (k m raw) r' w')"

text \<open>
  \<^verbatim>\<open>filter(record)\<close>: the loop over the logger's own filters, which returns at the
  first filter that rejects, and then the parent's answer when the logger has no filter.
\<close>

fun filter_loop ::
  "logger list \<Rightarrow> filter_fn list \<Rightarrow> log_record \<Rightarrow> world \<Rightarrow> (js_error + bool) \<times> log_record \<times> world" where
  "filter_loop h [] r w = (Inr True, r, w)"
| "filter_loop h (f # fs) r w =
     (case run h (f (header_of r)) r w of
        (Inl e, r', w') \<Rightarrow> (Inl e, r', w')
      | (Inr b, r', w') \<Rightarrow> if \<not> b then (Inr False, r', w') else filter_loop h fs r' w')"

function filter_logger ::
  "logger list \<Rightarrow> nat \<Rightarrow> log_record \<Rightarrow> world \<Rightarrow> (js_error + bool) \<times> log_record \<times> world" where
  "filter_logger h this r w =
     (case filter_loop h (filters (h ! this)) r w of
        (Inl e, r', w') \<Rightarrow> (Inl e, r', w')
      | (Inr b, r', w') \<Rightarrow>
          if \<not> b then (Inr False, r', w')
          else if length (filters (h ! this)) < 1 then
            (case parent_of h this of
               None \<Rightarrow> (Inr True, r', w')
             | Some p \<Rightarrow> filter_logger h p r' w')
          else (Inr True, r', w'))"
  by pat_completeness auto
termination
  by (relation "measure (\<lambda>(h, this, r, w). this)")
    (auto simp: parent_of_def split: option.splits if_splits)

declare propTransform.simps [simp del] getSinks.simps [simp del] filter_logger.simps [simp del]

section \<open>Emission\<close>

text \<open>
  The meta logger is created when the module is loaded, by
  \<^verbatim>\<open>LoggerImpl.getLogger(metaLoggerCategory)\<close>; the constant is imported from
  \<^verbatim>\<open>constants.ts\<close> and has the value that the comment on \<^verbatim>\<open>metaLogger\<close> gives,
  \<^verbatim>\<open>["logtape", "meta"]\<close>.
\<close>

definition metaLoggerCategory :: maybe_category where
  "metaLoggerCategory = Arr [Str ''logtape'', Str ''meta'']"

definition module_init :: "((js_error + nat) \<times> registry) option" where
  "module_init = getLogger empty_registry metaLoggerCategory"

definition metaLogger :: nat where
  "metaLogger = (case module_init of Some (Inr a, st) \<Rightarrow> a | _ \<Rightarrow> 0)"

text \<open>
  The measure for the recursion of \<^verbatim>\<open>emit\<close> through the meta logger: the sinks of the
  meta logger that are not bypassed yet, and whether the sinks still to be called are
  all sinks of the meta logger.
\<close>

definition emit_key :: "logger list \<Rightarrow> nat list \<Rightarrow> nat set \<Rightarrow> nat" where
  "emit_key h ss b =
     2 * card (set (getSinks h metaLogger) - b)
     + (if set ss \<subseteq> set (getSinks h metaLogger) then 0 else 1)"

lemma emit_key_rest: "emit_key h rest b \<le> emit_key h (sink # rest) b"
  by (simp add: emit_key_def)

lemma emit_key_meta:
  assumes "sink \<notin> b"
  shows "emit_key h (getSinks h metaLogger) (insert sink b) < emit_key h (sink # rest) b"
proof (cases "sink \<in> set (getSinks h metaLogger)")
  case True
  have "set (getSinks h metaLogger) - insert sink b \<subset> set (getSinks h metaLogger) - b"
    using True assms by auto
  then have "card (set (getSinks h metaLogger) - insert sink b)
      < card (set (getSinks h metaLogger) - b)"
    by (intro psubset_card_mono) simp_all
  then show ?thesis
    by (simp add: emit_key_def)
next
  case False
  have "card (set (getSinks h metaLogger) - insert sink b)
      \<le> card (set (getSinks h metaLogger) - b)"
    by (intro card_mono) auto
  with False show ?thesis
    by (simp add: emit_key_def)
qed

text \<open>
  \<^verbatim>\<open>emit(record, bypassSinks)\<close>, the loop over the sinks inside it, and
  \<^verbatim>\<open>_log(level, rawMessage, properties, bypassSinks)\<close>.  An omitted set of bypassed
  sinks is the empty set.  The result is \<open>Inl\<close> for an exception that leaves the call.
\<close>

function emit ::
    "logger list \<Rightarrow> (nat \<Rightarrow> sink_fn) \<Rightarrow> nat \<Rightarrow> log_record \<Rightarrow> nat set \<Rightarrow> world
      \<Rightarrow> (js_error + unit) \<times> log_record \<times> world"
  and emit_sinks ::
    "logger list \<Rightarrow> (nat \<Rightarrow> sink_fn) \<Rightarrow> nat list \<Rightarrow> log_record \<Rightarrow> nat set \<Rightarrow> world
      \<Rightarrow> (js_error + unit) \<times> log_record \<times> world"
  and log' ::
    "logger list \<Rightarrow> (nat \<Rightarrow> sink_fn) \<Rightarrow> nat \<Rightarrow> string \<Rightarrow> string \<Rightarrow> prop_arg \<Rightarrow> nat set \<Rightarrow> world
      \<Rightarrow> (js_error + unit) \<times> world"
where
  "emit h T this r bypassSinks w =
     (case filter_logger h this r w of
        (Inl e, r', w') \<Rightarrow> (Inl e, r', w')
      | (Inr b, r', w') \<Rightarrow>
          if \<not> b then (Inr (), r', w')
          else emit_sinks h T (getSinks h this) r' bypassSinks w')"
| "emit_sinks h T [] r bypassSinks w = (Inr (), r, w)"
| "emit_sinks h T (sink # rest) r bypassSinks w =
     (if sink \<in> bypassSinks then emit_sinks h T rest r bypassSinks w
      else
        case run h (T sink (header_of r)) r (w\<lparr>trace := trace w @ [SinkCall sink r]\<rparr>) of
          (Inr u, r', w') \<Rightarrow> emit_sinks h T rest r' bypassSinks w'
        | (Inl error, r', w') \<Rightarrow>
            (case log' h T metaLogger ''fatal'' ''Failed to emit a log record to sink''
                    (PropsObject
                       [(''sink'', JSink sink), (''error'', JError error), (''record'', JRecord r')])
                    (insert sink bypassSinks) w' of
               (Inl e, w'') \<Rightarrow> (Inl e, r', w'')
             | (Inr u, w'') \<Rightarrow> emit_sinks h T rest r' bypassSinks w''))"
| "log' h T this level rawMessage properties' bypassSinks w =
     (case emit h T this
             (LogRecord (next_id w) (category (h ! this)) level (now w)
                (MsgData [JStr rawMessage] (RawString rawMessage))
                (PropsGetter this rawMessage properties'))
             bypassSinks (w\<lparr>next_id := Suc (next_id w)\<rparr>) of
        (res, r', w') \<Rightarrow> (res, w'))"
  by pat_completeness auto
termination
proof (relation "inv_image (less_than <*lex*> less_than <*lex*> less_than)
    (\<lambda>x. case x of
        Inl (h, T, this, r, b, w) \<Rightarrow> (emit_key h (getSinks h this) b, 1::nat, 0::nat)
      | Inr (Inl (h, T, ss, r, b, w)) \<Rightarrow> (emit_key h ss b, 0, length ss)
      | Inr (Inr (h, T, this, l, m, p, b, w)) \<Rightarrow> (emit_key h (getSinks h this) b, 2, 0))",
    goal_cases)
  case 1
  show ?case by (intro wf_inv_image wf_lex_prod wf_less_than)
next
  case 2
  show ?case by simp
next
  case (3 h T sink rest r bypassSinks w)
  then show ?case
    using emit_key_rest [of h rest bypassSinks sink] emit_key_meta [of sink bypassSinks h rest]
    by auto
next
  case (4 h T sink rest r bypassSinks w)
  then show ?case
    using emit_key_rest [of h rest bypassSinks sink] emit_key_meta [of sink bypassSinks h rest]
    by auto
next
  case (5 h T sink rest r bypassSinks w)
  then show ?case
    using emit_key_rest [of h rest bypassSinks sink] emit_key_meta [of sink bypassSinks h rest]
    by auto
next
  case (6 h T sink rest r bypassSinks w)
  then show ?case
    using emit_key_rest [of h rest bypassSinks sink] emit_key_meta [of sink bypassSinks h rest]
    by auto
next
  case 7
  show ?case by simp
qed

declare emit.simps [simp del] emit_sinks.simps [simp del] log'.simps [simp del]


text \<open>
  \<^verbatim>\<open>logLazily(level, callback, properties = {})\<close> and
  \<^verbatim>\<open>logTemplate(level, messageTemplate, values, properties = {})\<close>; \<open>None\<close> is the
  omitted argument \<^verbatim>\<open>properties\<close>.
\<close>

definition logLazily ::
  "logger list \<Rightarrow> (nat \<Rightarrow> sink_fn) \<Rightarrow> nat \<Rightarrow> string \<Rightarrow> nat
    \<Rightarrow> js_error + (string list \<times> jsval list) option
    \<Rightarrow> props option \<Rightarrow> world \<Rightarrow> (js_error + unit) \<times> world" where
  "logLazily h T this level c call properties' w =
     (case emit h T this
             (LogRecord (next_id w) (category (h ! this)) level (now w)
                (MsgGetter c call)
                (PropsData (mergeProperties (properties (h ! this))
                   (Some (case properties' of None \<Rightarrow> [] | Some p \<Rightarrow> p)))))
             {} (w\<lparr>next_id := Suc (next_id w)\<rparr>) of
        (res, r', w') \<Rightarrow> (res, w'))"

definition logTemplate ::
  "logger list \<Rightarrow> (nat \<Rightarrow> sink_fn) \<Rightarrow> nat \<Rightarrow> string \<Rightarrow> string list \<Rightarrow> jsval list
    \<Rightarrow> props option \<Rightarrow> world \<Rightarrow> (js_error + unit) \<times> world" where
  "logTemplate h T this level messageTemplate values properties' w =
     (case emit h T this
             (LogRecord (next_id w) (category (h ! this)) level (now w)
                (MsgData (renderMessage messageTemplate values) (RawTemplate messageTemplate))
                (PropsData (mergeProperties (properties (h ! this))
                   (Some (case properties' of None \<Rightarrow> [] | Some p \<Rightarrow> p)))))
             {} (w\<lparr>next_id := Suc (next_id w)\<rparr>) of
        (res, r', w') \<Rightarrow> (res, w'))"

text \<open>
  \<^verbatim>\<open>log(level, message, ...values)\<close> looks at the type of \<^verbatim>\<open>message\<close>: a string
  with \<^verbatim>\<open>values[0]\<close> as the properties, a callback, or the strings of a template
  literal with its values.
\<close>

datatype log_call =
    Eager string prop_arg
  | Lazy nat "js_error + (string list \<times> jsval list) option"
  | Template "string list" "jsval list"

definition log ::
  "logger list \<Rightarrow> (nat \<Rightarrow> sink_fn) \<Rightarrow> nat \<Rightarrow> string \<Rightarrow> log_call \<Rightarrow> world
    \<Rightarrow> (js_error + unit) \<times> world" where
  "log h T this level call w =
     (case call of
        Eager message properties' \<Rightarrow> log' h T this level message properties' {} w
      | Lazy c tpl \<Rightarrow> logLazily h T this level c tpl None w
      | Template messageTemplate values \<Rightarrow>
          logTemplate h T this level messageTemplate values None w)"

section \<open>Notions used in the statements\<close>

text \<open>
  A heap is well formed when every parent is at a smaller address than its child and
  every reference in it points to an object of the heap.
\<close>

definition wf_heap :: "logger list \<Rightarrow> bool" where
  "wf_heap h \<longleftrightarrow>
     (\<forall>a < length h.
        (\<forall>p. parent (h ! a) = Some p \<longrightarrow> p < a) \<and>
        (\<forall>n c. children (h ! a) n = Some c \<longrightarrow> c < length h))"

definition wf_registry :: "registry \<Rightarrow> bool" where
  "wf_registry st \<longleftrightarrow>
     wf_heap (objs st) \<and> (\<forall>r. rootLogger st = Some r \<longrightarrow> r < length (objs st))"

text \<open>
  The outcome of a read of \<^verbatim>\<open>record.properties\<close>, and of a read of
  \<^verbatim>\<open>record.message\<close> and \<^verbatim>\<open>record.rawMessage\<close>: the value, or the exception.
  \<open>arg_value\<close> is the value of the \<^verbatim>\<open>properties\<close> argument that is merged, when it is
  not a callback that throws.
\<close>

fun arg_value :: "prop_arg \<Rightarrow> props option" where
  "arg_value PropsUndefined = None"
| "arg_value (PropsObject v) = Some v"
| "arg_value (PropsCallback c res) = (case res of Inl e \<Rightarrow> None | Inr v \<Rightarrow> Some v)"

fun arg_throws :: "prop_arg \<Rightarrow> js_error option" where
  "arg_throws (PropsCallback c (Inl e)) = Some e"
| "arg_throws _ = None"

definition properties_value :: "logger list \<Rightarrow> log_record \<Rightarrow> js_error + props option" where
  "properties_value h r =
     (case rec_props r of
        PropsData v \<Rightarrow> Inr v
      | PropsGetter this rawMessage properties' \<Rightarrow>
          (case arg_throws properties' of
             Some e \<Rightarrow> Inl e
           | None \<Rightarrow>
               propTransform h this
                 (raw_record r rawMessage
                    (mergeProperties (properties (h ! this)) (arg_value properties')))))"

definition message_value :: "log_record \<Rightarrow> js_error + jsval list \<times> raw_message" where
  "message_value r =
     (case rec_msg r of
        MsgData m raw \<Rightarrow> Inr (m, raw)
      | MsgGetter c call \<Rightarrow>
          (case call of
             Inl e \<Rightarrow> Inl e
           | Inr None \<Rightarrow> Inl (TypeError ''No log record was made.'')
           | Inr (Some (tpl, values)) \<Rightarrow> Inr (renderMessage tpl values, RawTemplate tpl)))"

text \<open>
  What user code returns on a record whose properties and message read as given.
\<close>

primrec denote ::
  "'a user_code \<Rightarrow> (js_error + props option) \<Rightarrow> (js_error + jsval list \<times> raw_message)
    \<Rightarrow> js_error + 'a" where
  "denote (Ret a) = (\<lambda>pv mv. Inr a)"
| "denote (Throw e) = (\<lambda>pv mv. Inl e)"
| "denote (ReadProps k) =
     (\<lambda>pv mv. case pv of Inl e \<Rightarrow> Inl e | Inr v \<Rightarrow> denote (k v) pv mv)"
| "denote (ReadMessage k) =
     (\<lambda>pv mv. case mv of Inl e \<Rightarrow> Inl e | Inr (m, raw) \<Rightarrow> denote (k m raw) pv mv)"

definition accepts :: "logger list \<Rightarrow> filter_fn \<Rightarrow> log_record \<Rightarrow> bool" where
  "accepts h f r \<longleftrightarrow>
     denote (f (header_of r)) (properties_value h r) (message_value r) = Inr True"

definition rejects :: "logger list \<Rightarrow> filter_fn \<Rightarrow> log_record \<Rightarrow> bool" where
  "rejects h f r \<longleftrightarrow>
     denote (f (header_of r)) (properties_value h r) (message_value r) = Inr False"

text \<open>
  Two states of one record object: the plain fields and the identity are the same, and
  so are the values that reads of the properties and of the message give.
\<close>

definition same_record :: "logger list \<Rightarrow> log_record \<Rightarrow> log_record \<Rightarrow> bool" where
  "same_record h r r' \<longleftrightarrow>
     header_of r' = header_of r \<and> rec_id r' = rec_id r \<and>
     properties_value h r' = properties_value h r \<and> message_value r' = message_value r"

text \<open>
  Heaps and records for the examples.  \<open>blank_logger\<close> is the object that the constructor
  makes when neither the parent nor the caller gives properties.  The records are the
  fixtures of the tests.
\<close>

definition blank_logger :: "nat option \<Rightarrow> string list \<Rightarrow> logger" where
  "blank_logger p c =
     \<lparr>parent = p, category = c, children = (\<lambda>_. None), sinks = [], parentSinks = Inherit,
      filters = [], propTransformers = [], properties = None\<rparr>"

definition sinks_scenario :: "logger list" where
  "sinks_scenario =
     [(blank_logger None [])\<lparr>children := [''foo'' \<mapsto> 1], sinks := [10]\<rparr>,
      (blank_logger (Some 0) [''foo''])\<lparr>children := [''bar'' \<mapsto> 2], sinks := [11]\<rparr>,
      (blank_logger (Some 1) [''foo'', ''bar''])\<lparr>sinks := [13]\<rparr>]"

definition info_record :: log_record where
  "info_record =
     LogRecord 0 [''my-app'', ''junk''] ''info'' 1700000000000
       (MsgData [JStr ''Hello, '', JNum 123, JStr '' & '', JNum 456, JStr ''!'']
          (RawString ''Hello, {a} & {b}!''))
       (PropsData (Some []))"

definition filter_scenario :: "logger list" where
  "filter_scenario =
     [(blank_logger None [])\<lparr>children := [''foo'' \<mapsto> 1]\<rparr>,
      (blank_logger (Some 0) [''foo''])
        \<lparr>children := [''bar'' \<mapsto> 2, ''quux'' \<mapsto> 3],
         filters := [\<lambda>log. Ret (h_level log = ''info'')]\<rparr>,
      (blank_logger (Some 1) [''foo'', ''bar''])
        \<lparr>filters := [\<lambda>log. ReadMessage (\<lambda>m raw. Ret (JStr ''!'' \<in> set m))]\<rparr>,
      blank_logger (Some 1) [''foo'', ''quux'']]"

definition world0 :: world where
  "world0 = \<lparr>cb_calls = (\<lambda>_. 0), next_id = 1, now = 1700000000000, trace = []\<rparr>"

definition debug_record :: log_record where
  "debug_record =
     LogRecord 0 [''my-app'', ''junk''] ''debug'' 1700000000000
       (MsgData [JStr ''Hello, '', JNum 123, JStr '' & '', JNum 456, JStr ''!'']
          (RawString ''Hello, {a} & {b}!''))
       (PropsData (Some []))"

definition sinks_scenario_override :: "logger list" where
  "sinks_scenario_override =
     [(blank_logger None [])\<lparr>children := [''foo'' \<mapsto> 1], sinks := [10]\<rparr>,
      (blank_logger (Some 0) [''foo''])\<lparr>children := [''bar'' \<mapsto> 2], sinks := [11]\<rparr>,
      (blank_logger (Some 1) [''foo'', ''bar''])\<lparr>sinks := [13], parentSinks := Override\<rparr>]"

text \<open>
  One step of \<^verbatim>\<open>getChild\<close>: the child for the first name (the logger itself for the empty
  name, the registered child, the \<^verbatim>\<open>TypeError\<close> for a member inherited from
  \<^verbatim>\<open>Object.prototype\<close>, or a new child that is then registered), and the walk of
  \<^verbatim>\<open>getChild\<close> along a list of names, which ends at the first exception.
\<close>

definition step_child :: "registry \<Rightarrow> nat \<Rightarrow> string \<Rightarrow> (js_error + nat) \<times> registry" where
  "step_child st this n =
     (if n = [] then (Inr this, st)
      else (case children_get (children (objs st ! this)) n of
              LoggerRef c \<Rightarrow> (Inr c, st)
            | InheritedMember \<Rightarrow> (Inl (TypeError ''childRef.deref is not a function''), st)
            | NoRef \<Rightarrow>
                let (c, st1) =
                      new_LoggerImpl st (Some this) (category (objs st ! this) @ [n]) None
                in (Inr c, st1\<lparr>objs := (objs st1)
                      [this := (objs st1 ! this)
                         \<lparr>children := (children (objs st1 ! this))(n \<mapsto> c)\<rparr>]\<rparr>)))"

fun descend :: "registry \<Rightarrow> nat \<Rightarrow> string list \<Rightarrow> (js_error + nat) \<times> registry" where
  "descend st this [] = (Inr this, st)"
| "descend st this (n # ns) =
     (case step_child st this n of
        (Inl e, st') \<Rightarrow> (Inl e, st')
      | (Inr c, st') \<Rightarrow> descend st' c ns)"

definition keeps_children :: "registry \<Rightarrow> registry \<Rightarrow> bool" where
  "keeps_children st st' \<longleftrightarrow>
     length (objs st) \<le> length (objs st') \<and> rootLogger st' = rootLogger st \<and>
     (\<forall>a < length (objs st).
        parent (objs st' ! a) = parent (objs st ! a) \<and>
        category (objs st' ! a) = category (objs st ! a) \<and>
        properties (objs st' ! a) = properties (objs st ! a) \<and>
        (\<forall>m x. children (objs st ! a) m = Some x \<longrightarrow> children (objs st' ! a) m = Some x))"

text \<open>
  No object outside the set \<open>B\<close> holds a child reference to an object in \<open>B\<close>.
\<close>

definition no_refs_into :: "registry \<Rightarrow> nat set \<Rightarrow> bool" where
  "no_refs_into st B \<longleftrightarrow>
     (\<forall>a < length (objs st). a \<notin> B \<longrightarrow>
        (\<forall>m x. children (objs st ! a) m = Some x \<longrightarrow> x \<notin> B))"

definition tree_scenario :: registry where
  "tree_scenario = \<lparr>objs = sinks_scenario, rootLogger = Some 0\<rparr>"

section \<open>The rotating file sink\<close>

text \<open>
  Modelled from the spec: the rotating file sink (\<^verbatim>\<open>getRotatingFileSink\<close>, in
  \<^verbatim>\<open>filesink.base.ts\<close>) is not among the sources; only its test is.  The state is the
  family of files of the path \<open>P\<close> (index 0 is \<open>P\<close> itself, index \<open>k\<close> is \<open>P.k\<close>), the
  tracked size of the current file, the byte threshold, the rotation depth (\<open>None\<close> for
  unbounded) and the formatter.
\<close>

record rotating_sink =
  files :: "(nat \<times> string) list"
  tracked_size :: nat
  maxFileSize :: nat
  maxFiles :: "nat option"
  formatter :: "log_record \<Rightarrow> string"

text \<open>
  Modelled from the spec: renaming a file that does not exist is skipped; a rename
  replaces the target.
\<close>

definition rename_file :: "nat \<Rightarrow> nat \<Rightarrow> (nat \<times> string) list \<Rightarrow> (nat \<times> string) list" where
  "rename_file i j fs =
     (case map_of fs i of
        None \<Rightarrow> fs
      | Some content \<Rightarrow> (j, content) # filter (\<lambda>(k, c). k \<noteq> i \<and> k \<noteq> j) fs)"

definition highest_index :: "(nat \<times> string) list \<Rightarrow> nat" where
  "highest_index fs = fold max (map fst fs) 0"

text \<open>
  Modelled from the spec: the chain of renames of a rotation, from the highest existing
  index down to 1; each rotated file moves up by one index, as in the specification's
  scenario (\<open>P.1\<close> to \<open>P.2\<close>, then \<open>P\<close> to \<open>P.1\<close>).  A file at the rotation depth is not
  renamed further.
\<close>

fun rename_chain :: "nat option \<Rightarrow> nat \<Rightarrow> (nat \<times> string) list \<Rightarrow> (nat \<times> string) list" where
  "rename_chain m 0 fs = fs"
| "rename_chain m (Suc k) fs =
     rename_chain m k
       (case m of
          None \<Rightarrow> rename_file (Suc k) (Suc (Suc k)) fs
        | Some limit \<Rightarrow> if Suc (Suc k) \<le> limit then rename_file (Suc k) (Suc (Suc k)) fs else fs)"

definition rotate :: "rotating_sink \<Rightarrow> rotating_sink" where
  "rotate s =
     (let fs1 = rename_chain (maxFiles s) (highest_index (files s)) (files s);
          fs2 = rename_file 0 1 fs1;
          fs3 = (0, []) # filter (\<lambda>(k, c). k \<noteq> 0) fs2
      in s\<lparr>files := fs3, tracked_size := 0\<rparr>)"

definition append_file :: "string \<Rightarrow> (nat \<times> string) list \<Rightarrow> (nat \<times> string) list" where
  "append_file chunk fs =
     (0, (case map_of fs 0 of None \<Rightarrow> [] | Some content \<Rightarrow> content) @ chunk)
     # filter (\<lambda>(k, c). k \<noteq> 0) fs"

text \<open>
  Modelled from the spec: \<^verbatim>\<open>write(record)\<close> renders the record, rotates first when the
  chunk would push the non-empty current file over the threshold, then appends the chunk
  and updates the tracked size.
\<close>

definition write_record :: "rotating_sink \<Rightarrow> log_record \<Rightarrow> rotating_sink" where
  "write_record s r =
     (let chunk = formatter s r;
          s1 = (if tracked_size s + length chunk > maxFileSize s \<and> tracked_size s \<noteq> 0
                then rotate s else s)
      in s1\<lparr>files := append_file chunk (files s1),
            tracked_size := tracked_size s1 + length chunk\<rparr>)"

text \<open>
  The scenario of the test: a new sink on an empty file with the threshold 150, and the
  lines that the test expects for its records (69 bytes each; the separator of the
  category is two bytes).
\<close>

definition test_line :: "string \<Rightarrow> string" where
  "test_line abbr =
     ''2023-11-14 22:13:20.000 +00:00 ['' @ abbr @ ''] my-app'' @ [CHR 0xC2, CHR 0xB7]
     @ ''junk: Hello, 123 & 456!'' @ [CHR 0x0A]"

definition test_formatter :: "log_record \<Rightarrow> string" where
  "test_formatter r =
     test_line
       (if rec_level r = ''debug'' then ''DBG'' else if rec_level r = ''info'' then ''INF''
        else if rec_level r = ''warning'' then ''WRN'' else if rec_level r = ''error'' then ''ERR''
        else if rec_level r = ''critical'' then ''CRT'' else ''FTL'')"

definition test_sink :: rotating_sink where
  "test_sink =
     \<lparr>files = [(0, [])], tracked_size = 0, maxFileSize = 150, maxFiles = None,
      formatter = test_formatter\<rparr>"

definition fixture :: "string \<Rightarrow> log_record" where
  "fixture l =
     LogRecord 0 [''my-app'', ''junk''] l 1700000000000
       (MsgData [JStr ''Hello, '', JNum 123, JStr '' & '', JNum 456, JStr ''!'']
          (RawString ''Hello, {a} & {b}!''))
       (PropsData (Some []))"

definition test_writes :: "string list \<Rightarrow> rotating_sink" where
  "test_writes levels = fold (\<lambda>l s. write_record s (fixture l)) levels test_sink"

text \<open>
  Modelled from the spec: the index \<open>k\<close> of a rotated file is within the rotation depth
  (every index is, when the depth is unbounded).
\<close>

definition within_depth :: "nat option \<Rightarrow> nat \<Rightarrow> bool" where
  "within_depth m k = (case m of None \<Rightarrow> True | Some limit \<Rightarrow> k \<le> limit)"

text \<open>
  A sink of rotation depth 1 whose file \<open>P.1\<close> exists, for the bounded case.
\<close>

definition bounded_sink :: rotating_sink where
  "bounded_sink =
     \<lparr>files = [(0, ''new''), (1, ''old'')], tracked_size = 3, maxFileSize = 10,
      maxFiles = Some 1, formatter = test_formatter\<rparr>"

text \<open>
  The events of a run on the record \<open>r\<close>, started when the next free identity was
  \<open>nid\<close> and with the bypass set \<open>b\<close>: no bypassed sink is called, and an event is about
  \<open>r\<close> or about a record made later.
\<close>

fun ev_ok :: "logger list \<Rightarrow> nat set \<Rightarrow> log_record \<Rightarrow> nat \<Rightarrow> event \<Rightarrow> bool" where
  "ev_ok h b r nid (SinkCall s rr) = (s \<notin> b \<and> (nid \<le> rec_id rr \<or> same_record h r rr))"
| "ev_ok h b r nid (PropsRead i v) = (nid \<le> i \<or> i = rec_id r \<and> v = properties_value h r)"
| "ev_ok h b r nid (MessageRead i) = (nid \<le> i \<or> i = rec_id r)"

text \<open>The numbers of reads of the properties and of the message of the record \<open>i\<close>.\<close>

fun props_reads :: "nat \<Rightarrow> event list \<Rightarrow> nat" where
  "props_reads i [] = 0"
| "props_reads i (PropsRead j v # evs) = (if i = j then 1 else 0) + props_reads i evs"
| "props_reads i (ev # evs) = props_reads i evs"

fun msg_reads :: "nat \<Rightarrow> event list \<Rightarrow> nat" where
  "msg_reads i [] = 0"
| "msg_reads i (MessageRead j # evs) = (if i = j then 1 else 0) + msg_reads i evs"
| "msg_reads i (ev # evs) = msg_reads i evs"

text \<open>
  The number of invocations of a callback that \<open>n\<close> reads of an accessor cause, when
  the outcome of a read is \<open>v\<close>: the accessor calls its callback at the first read and
  is then redefined as data; when it throws, it is not redefined, and every read calls the
  callback.
\<close>

definition calls_of_reads :: "js_error + 'a \<Rightarrow> nat \<Rightarrow> nat" where
  "calls_of_reads v n = (case v of Inl e \<Rightarrow> n | Inr x \<Rightarrow> min 1 n)"

text \<open>
  The invocations of the callback \<open>c\<close> that the reads of the record \<open>r\<close> cause.
\<close>

definition props_calls :: "logger list \<Rightarrow> nat \<Rightarrow> log_record \<Rightarrow> event list \<Rightarrow> nat" where
  "props_calls h c r evs =
     (case rec_props r of
        PropsGetter this m (PropsCallback c' res) \<Rightarrow>
          if c' = c then calls_of_reads (properties_value h r) (props_reads (rec_id r) evs)
          else 0
      | _ \<Rightarrow> 0)"

definition msg_calls :: "nat \<Rightarrow> log_record \<Rightarrow> event list \<Rightarrow> nat" where
  "msg_calls c r evs =
     (case rec_msg r of
        MsgGetter c' call \<Rightarrow>
          if c' = c then calls_of_reads (message_value r) (msg_reads (rec_id r) evs) else 0
      | _ \<Rightarrow> 0)"

text \<open>The accessors of \<open>r\<close> that are redefined as data after the events.\<close>

definition props_after :: "logger list \<Rightarrow> log_record \<Rightarrow> event list \<Rightarrow> log_record \<Rightarrow> bool" where
  "props_after h r evs r' \<longleftrightarrow>
     (case rec_props r of
        PropsData x \<Rightarrow> rec_props r' = PropsData x
      | PropsGetter this m p \<Rightarrow>
          if props_reads (rec_id r) evs = 0 \<or> isl (properties_value h r)
          then rec_props r' = PropsGetter this m p
          else (\<exists>x. rec_props r' = PropsData x))"

definition msg_after :: "log_record \<Rightarrow> event list \<Rightarrow> log_record \<Rightarrow> bool" where
  "msg_after r evs r' \<longleftrightarrow>
     (case rec_msg r of
        MsgData m raw \<Rightarrow> rec_msg r' = MsgData m raw
      | MsgGetter c call \<Rightarrow>
          if msg_reads (rec_id r) evs = 0 \<or> isl (message_value r)
          then rec_msg r' = MsgGetter c call
          else (\<exists>m raw. rec_msg r' = MsgData m raw))"

text \<open>
  What a run on the record \<open>r\<close> in the world \<open>w\<close> with the bypass set \<open>b\<close> does, when
  it ends with the record \<open>r'\<close> and the world \<open>w'\<close>.
\<close>

definition run_inv ::
  "logger list \<Rightarrow> nat set \<Rightarrow> log_record \<Rightarrow> world \<Rightarrow> log_record \<Rightarrow> world \<Rightarrow> bool" where
  "run_inv h b r w r' w' \<longleftrightarrow>
     same_record h r r' \<and> next_id w \<le> next_id w' \<and> now w' = now w \<and>
     (\<exists>evs. trace w' = trace w @ evs \<and>
        (\<forall>ev \<in> set evs. ev_ok h b r (next_id w) ev) \<and>
        (\<forall>c. cb_calls w' c = cb_calls w c + props_calls h c r evs + msg_calls c r evs) \<and>
        props_after h r evs r' \<and> msg_after r evs r')"

text \<open>The record that \<^verbatim>\<open>_log\<close> makes.\<close>

definition eager_record ::
  "logger list \<Rightarrow> nat \<Rightarrow> string \<Rightarrow> string \<Rightarrow> prop_arg \<Rightarrow> world \<Rightarrow> log_record" where
  "eager_record h this level rawMessage properties' w =
     LogRecord (next_id w) (category (h ! this)) level (now w)
       (MsgData [JStr rawMessage] (RawString rawMessage))
       (PropsGetter this rawMessage properties')"

text \<open>
  The record that the sink loop of \<^verbatim>\<open>emit\<close> logs at the meta logger when the sink
  \<open>sink\<close> has thrown \<open>error\<close> on the record \<open>r\<close>: its message, its properties, and the
  record that \<^verbatim>\<open>_log\<close> makes of them in the world \<open>w\<close>.
\<close>

definition failure_message :: string where
  "failure_message = ''Failed to emit a log record to sink''"

definition failure_props :: "nat \<Rightarrow> js_error \<Rightarrow> log_record \<Rightarrow> prop_arg" where
  "failure_props sink error r =
     PropsObject [(''sink'', JSink sink), (''error'', JError error), (''record'', JRecord r)]"

definition failure_record ::
  "logger list \<Rightarrow> nat \<Rightarrow> js_error \<Rightarrow> log_record \<Rightarrow> world \<Rightarrow> log_record" where
  "failure_record h sink error r w =
     eager_record h metaLogger ''fatal'' failure_message (failure_props sink error r) w"

text \<open>
  The filters that decide for the meta logger do not throw on the records that
  \<^verbatim>\<open>emit\<close> logs there.
\<close>

definition meta_filter_safe :: "logger list \<Rightarrow> bool" where
  "meta_filter_safe h \<longleftrightarrow>
     (\<forall>sink error r w.
        \<exists>a. fst (filter_logger h metaLogger (failure_record h sink error r w)
                   (w\<lparr>next_id := Suc (next_id w)\<rparr>)) = Inr a)"

text \<open>
  The meta logger of the heap is the object that the module made when it was loaded: it
  has the reserved category.
\<close>

definition meta_installed :: "logger list \<Rightarrow> bool" where
  "meta_installed h \<longleftrightarrow>
     metaLogger < length h \<and> category (h ! metaLogger) = getCategoryList metaLoggerCategory"

text \<open>
  The scenario of the test of \<^verbatim>\<open>emit\<close>: the root with a sink and the filter for
  \<^verbatim>\<open>warning\<close>, the meta logger below it, and the loggers \<^verbatim>\<open>foo\<close>, \<^verbatim>\<open>foo.bar\<close> and
  \<^verbatim>\<open>foo.bar.baz\<close>, the last with a sink that throws.  In the second heap the throwing
  sink is registered at the root as well.
\<close>

definition level_filter :: "string \<Rightarrow> filter_fn" where
  "level_filter l = (case toFilter (FilterLevel l) of Inr f \<Rightarrow> f | Inl e \<Rightarrow> (\<lambda>_. Throw e))"

definition emit_scenario :: "nat list \<Rightarrow> logger list" where
  "emit_scenario root_sinks =
     [(blank_logger None [])
        \<lparr>children := [''logtape'' \<mapsto> 1, ''foo'' \<mapsto> 3], sinks := root_sinks,
         filters := [level_filter ''warning'']\<rparr>,
      (blank_logger (Some 0) [''logtape''])\<lparr>children := [''meta'' \<mapsto> 2]\<rparr>,
      blank_logger (Some 1) [''logtape'', ''meta''],
      (blank_logger (Some 0) [''foo''])
        \<lparr>children := [''bar'' \<mapsto> 4], sinks := [12], filters := [level_filter ''info'']\<rparr>,
      (blank_logger (Some 3) [''foo'', ''bar''])
        \<lparr>children := [''baz'' \<mapsto> 5], sinks := [13], filters := [level_filter ''error'']\<rparr>,
      (blank_logger (Some 4) [''foo'', ''bar'', ''baz''])\<lparr>sinks := [14]\<rparr>]"

definition emit_sink_table :: "nat \<Rightarrow> sink_fn" where
  "emit_sink_table s =
     (if s = 14 then (\<lambda>_. Throw (Error ''This is an error'')) else (\<lambda>_. Ret ()))"

text \<open>
  The same scenario with a filter at the meta logger that throws, and a filter for the
  root that throws on the records of the meta logger only.
\<close>

definition throwing_filter :: filter_fn where
  "throwing_filter record = Throw (TypeError ''filter failed'')"

definition meta_throwing_filter :: filter_fn where
  "meta_throwing_filter record =
     (if h_category record = [''logtape'', ''meta''] then Throw (TypeError ''filter failed'')
      else Ret True)"

definition emit_scenario_meta_filter :: "filter_fn list \<Rightarrow> filter_fn list \<Rightarrow> logger list" where
  "emit_scenario_meta_filter root_filters meta_filters =
     [(blank_logger None [])
        \<lparr>children := [''logtape'' \<mapsto> 1, ''foo'' \<mapsto> 3], sinks := [10],
         filters := root_filters\<rparr>,
      (blank_logger (Some 0) [''logtape''])\<lparr>children := [''meta'' \<mapsto> 2]\<rparr>,
      (blank_logger (Some 1) [''logtape'', ''meta''])\<lparr>filters := meta_filters\<rparr>,
      (blank_logger (Some 0) [''foo''])\<lparr>sinks := [14]\<rparr>]"

definition meta_record :: "nat \<Rightarrow> log_record" where
  "meta_record i =
     LogRecord i [''logtape'', ''meta''] ''fatal'' 1700000000000
       (MsgData [JStr ''Failed to emit a log record to sink'']
          (RawString ''Failed to emit a log record to sink''))
       (PropsGetter 2 ''Failed to emit a log record to sink''
          (PropsObject
             [(''sink'', JSink 14), (''error'', JError (Error ''This is an error'')),
              (''record'', JRecord (fixture ''error''))]))"

text \<open>
  The loggers that \<^verbatim>\<open>propTransform\<close> and \<^verbatim>\<open>filter\<close> can reach from a logger: the logger
  itself and its ancestors.
\<close>

function ancestors :: "logger list \<Rightarrow> nat \<Rightarrow> nat list" where
  "ancestors h this =
     this # (case parent_of h this of None \<Rightarrow> [] | Some p \<Rightarrow> ancestors h p)"
  by pat_completeness auto
termination
  by (relation "measure (\<lambda>(h, this). this)")
    (auto simp: parent_of_def split: option.splits if_splits)

text \<open>
  The scenario of the tests of \<^verbatim>\<open>log\<close>: the logger \<^verbatim>\<open>foo\<close> with one sink, beside the
  meta logger; \<open>fs\<close> are the filters of \<^verbatim>\<open>foo\<close> and \<open>ts\<close> the property transformers of
  the root.  The sink \<open>20\<close> reads the properties of the record twice, the sink \<open>22\<close>
  reads its message twice, and the sink \<open>21\<close> reads nothing.
\<close>

definition log_scenario :: "filter_fn list \<Rightarrow> prop_transformer list \<Rightarrow> nat list \<Rightarrow> logger list" where
  "log_scenario fs ts ss =
     [(blank_logger None [])
        \<lparr>children := [''logtape'' \<mapsto> 1, ''foo'' \<mapsto> 3], propTransformers := ts\<rparr>,
      (blank_logger (Some 0) [''logtape''])\<lparr>children := [''meta'' \<mapsto> 2]\<rparr>,
      blank_logger (Some 1) [''logtape'', ''meta''],
      (blank_logger (Some 0) [''foo''])\<lparr>sinks := ss, filters := fs\<rparr>]"

definition log_sink_table :: "nat \<Rightarrow> sink_fn" where
  "log_sink_table s =
     (if s = 20 then (\<lambda>_. ReadProps (\<lambda>_. ReadProps (\<lambda>_. Ret ())))
      else if s = 22 then (\<lambda>_. ReadMessage (\<lambda>_ _. ReadMessage (\<lambda>_ _. Ret ())))
      else (\<lambda>_. Ret ()))"

definition hello_record :: "string \<Rightarrow> prop_arg \<Rightarrow> log_record" where
  "hello_record l p =
     LogRecord 1 [''foo''] l 1700000000000
       (MsgData [JStr ''Hello, world!''] (RawString ''Hello, world!''))
       (PropsGetter 3 ''Hello, world!'' p)"

definition add_app :: prop_transformer where
  "add_app rawRecord =
     Inr (Some (spread (case raw_properties rawRecord of None \<Rightarrow> [] | Some p \<Rightarrow> p)
                  [(''app'', JStr ''demo'')]))"








section \<open>Properties\<close>

subsection \<open>Category normalisation\<close>

lemma deepFlatten_item:
  "(case item of Str s \<Rightarrow> [s] | _ \<Rightarrow> deepFlatten item) = deepFlatten item"
  by (cases item) simp_all

lemma deepFlatten_Arr: "deepFlatten (Arr items) = concat (map deepFlatten items)"
  by (simp add: deepFlatten_item)

lemma deepFlatten_leaves: "deepFlatten c = spec_string_leaves c"
  by (induction c) (simp_all add: deepFlatten_item cong: map_cong)

lemma filter_nonempty_leaves:
  "filter (\<lambda>s. s \<noteq> []) (spec_string_leaves c) = spec_nonempty_leaves c"
  by (induction c rule: spec_string_leaves.induct) (simp_all add: filter_concat comp_def cong: map_cong)


text \<open>
  Claim C6, as the code has it: \<^verbatim>\<open>getCategoryList\<close> returns the string leaves of its
  input in left-to-right, depth-first order. Absent leaves (\<^verbatim>\<open>null\<close>, \<^verbatim>\<open>undefined\<close>)
  are dropped, empty strings are kept in place; dropping the empty strings from the
  output gives the sequence of non-empty segments.
\<close>

theorem getCategoryList_string_leaves:
  "getCategoryList c = spec_string_leaves c \<and>
   filter (\<lambda>s. s \<noteq> []) (getCategoryList c) = spec_nonempty_leaves c"
  by (simp add: getCategoryList_def deepFlatten_leaves filter_nonempty_leaves)

text \<open>
  Claim C6 as stated fails: an empty string is a leaf of the output, for a string input
  and inside an array.
\<close>

theorem getCategoryList_keeps_empty_segment:
  "getCategoryList (Arr [Str ''a'', Str [], Arr [Null, Str ''b'']]) = [''a'', [], ''b''] \<and>
   getCategoryList (Str []) = [[]]"
  by (simp add: getCategoryList_def)


subsection \<open>Level filters\<close>

lemma levelsOrderMap_simps:
  "levelsOrderMap ''fatal'' = Some 0" "levelsOrderMap ''critical'' = Some 1"
  "levelsOrderMap ''error'' = Some 2" "levelsOrderMap ''warning'' = Some 3"
  "levelsOrderMap ''info'' = Some 4" "levelsOrderMap ''debug'' = Some 5"
  by (simp_all add: levelsOrderMap_def levelsOrder_def upt_rec)

lemma levelsOrderMap_invalid: "l \<notin> set levelsOrder \<Longrightarrow> levelsOrderMap l = None"
  by (simp add: levelsOrderMap_def levelsOrder_def upt_rec)


lemma levelsOrder_iff:
  "l \<in> set levelsOrder \<longleftrightarrow> l = ''fatal'' \<or> l = ''critical'' \<or> l = ''error'' \<or> l = ''warning''
    \<or> l = ''info'' \<or> l = ''debug''"
  unfolding levelsOrder_def by (simp only: set_simps insert_iff empty_iff simp_thms)

lemma getLevelIndex_valid:
  assumes "l \<in> set levelsOrder"
  shows "getLevelIndex l = Inr (5 - spec_severity l)"
  using assms unfolding levelsOrder_iff
  by (elim disjE) (simp_all add: getLevelIndex_def levelsOrderMap_simps spec_severity_def)

lemma spec_severity_le_5: "spec_severity l \<le> 5"
  by (simp add: spec_severity_def)

text \<open>
  Claim C8: for a threshold \<open>t\<close> of the six-value scale, \<^verbatim>\<open>toFilter\<close> and
  \<^verbatim>\<open>getLevelFilter\<close> return a filter that accepts a record (of a level of the scale)
  iff the record's level is at least as severe as \<open>t\<close>; \<^verbatim>\<open>null\<close> gives the filter that
  rejects every record; a threshold outside the scale raises a \<^verbatim>\<open>TypeError\<close> when the
  filter is constructed.
\<close>

theorem toFilter_level_threshold:
  "(t \<in> set levelsOrder \<longrightarrow>
      (\<exists>f. toFilter (FilterLevel t) = Inr f \<and> getLevelFilter (Some t) = Inr f \<and>
           (\<forall>r. h_level r \<in> set levelsOrder \<longrightarrow>
                f r = Ret (spec_severity t \<le> spec_severity (h_level r))))) \<and>
   (\<exists>f. toFilter FilterNull = Inr f \<and> getLevelFilter None = Inr f \<and> (\<forall>r. f r = Ret False)) \<and>
   (t \<notin> set levelsOrder \<longrightarrow>
      toFilter (FilterLevel t) = Inl (TypeError (''Invalid log level: '' @ t @ ''.'')) \<and>
      getLevelFilter (Some t) = Inl (TypeError (''Invalid log level: '' @ t @ ''.'')))"
proof (intro conjI impI)
  assume t: "t \<in> set levelsOrder"
  show "\<exists>f. toFilter (FilterLevel t) = Inr f \<and> getLevelFilter (Some t) = Inr f \<and>
           (\<forall>r. h_level r \<in> set levelsOrder \<longrightarrow>
                f r = Ret (spec_severity t \<le> spec_severity (h_level r)))"
  proof (cases "t = ''debug''")
    case True
    then show ?thesis
      by (simp add: toFilter_def getLevelFilter_def spec_severity_def)
  next
    case False
    have "(5 - spec_severity l \<le> 5 - spec_severity t) = (spec_severity t \<le> spec_severity l)" for l
      using spec_severity_le_5 [of t] spec_severity_le_5 [of l] by arith
    with False t show ?thesis
      by (simp add: toFilter_def getLevelFilter_def getLevelIndex_valid)
  qed
next
  show "\<exists>f. toFilter FilterNull = Inr f \<and> getLevelFilter None = Inr f \<and> (\<forall>r. f r = Ret False)"
    by (simp add: toFilter_def getLevelFilter_def)
next
  assume t: "t \<notin> set levelsOrder"
  then have d: "t \<noteq> ''debug''"
    unfolding levelsOrder_iff by simp
  from t d show "toFilter (FilterLevel t) = Inl (TypeError (''Invalid log level: '' @ t @ ''.''))"
    by (simp add: toFilter_def getLevelFilter_def getLevelIndex_def levelsOrderMap_invalid)
  from t d show "getLevelFilter (Some t) = Inl (TypeError (''Invalid log level: '' @ t @ ''.''))"
    by (simp add: getLevelFilter_def getLevelIndex_def levelsOrderMap_invalid)
qed

theorem toFilter_level_threshold_witness:
  "''warning'' \<in> set levelsOrder \<and>
   (\<exists>f. toFilter (FilterLevel ''warning'') = Inr f \<and>
        f \<lparr>h_category = [''my-app''], h_level = ''error'', h_timestamp = 0\<rparr> = Ret True \<and>
        f \<lparr>h_category = [''my-app''], h_level = ''info'', h_timestamp = 0\<rparr> = Ret False) \<and>
   ''invalid'' \<notin> set levelsOrder \<and>
   toFilter (FilterLevel ''invalid'') = Inl (TypeError ''Invalid log level: invalid.'')"
  using toFilter_level_threshold [of "''warning''"] toFilter_level_threshold [of "''invalid''"]
  by (simp add: levelsOrder_iff toFilter_def getLevelFilter_def getLevelIndex_def
      levelsOrderMap_simps)

subsection \<open>User code on a record\<close>

lemma parent_of_wf: "wf_heap h \<Longrightarrow> n < length h \<Longrightarrow> parent_of h n = parent (h ! n)"
  by (auto simp: wf_heap_def parent_of_def split: option.splits)

lemma set_props_sel [simp]:
  "rec_id (set_props r p) = rec_id r" "rec_category (set_props r p) = rec_category r"
  "rec_level (set_props r p) = rec_level r" "rec_timestamp (set_props r p) = rec_timestamp r"
  "rec_msg (set_props r p) = rec_msg r" "rec_props (set_props r p) = p"
  by (cases r; simp)+

lemma set_msg_sel [simp]:
  "rec_id (set_msg r m) = rec_id r" "rec_category (set_msg r m) = rec_category r"
  "rec_level (set_msg r m) = rec_level r" "rec_timestamp (set_msg r m) = rec_timestamp r"
  "rec_msg (set_msg r m) = m" "rec_props (set_msg r m) = rec_props r"
  by (cases r; simp)+

lemma raw_record_set [simp]:
  "raw_record (set_msg r m) = raw_record r" "raw_record (set_props r p) = raw_record r"
  by (simp_all add: raw_record_def fun_eq_iff)

lemma same_record_refl [simp]: "same_record h r r"
  by (simp add: same_record_def)

lemma same_record_trans: "same_record h r r' \<Longrightarrow> same_record h r' r'' \<Longrightarrow> same_record h r r''"
  by (simp add: same_record_def)

lemma getProperties_value:
  "fst (getProperties h this r m p w) =
     (case arg_throws p of
        Some e \<Rightarrow> Inl e
      | None \<Rightarrow>
          propTransform h this
            (raw_record r m (mergeProperties (properties (h ! this)) (arg_value p))))"
proof (cases p)
  case (PropsCallback c res)
  then show ?thesis
    by (cases res) (simp_all add: getProperties_def)
qed (simp_all add: getProperties_def)

lemma read_properties_value:
  assumes "read_properties h r w = (v, r', w')"
  shows "v = properties_value h r \<and> same_record h r r'"
proof (cases "rec_props r")
  case (PropsData x)
  with assms show ?thesis
    by (auto simp: read_properties_def properties_value_def)
next
  case (PropsGetter this m p)
  obtain v1 w1 where g: "getProperties h this r m p w = (v1, w1)"
    by (cases "getProperties h this r m p w")
  with getProperties_value [of h this r m p w]
  have v1: "v1 = properties_value h r"
    by (simp add: properties_value_def PropsGetter)
  show ?thesis
  proof (cases v1)
    case (Inl e)
    with assms PropsGetter g have "v = v1" "r' = r"
      by (auto simp: read_properties_def)
    with v1 show ?thesis
      by simp
  next
    case (Inr x)
    with assms PropsGetter g have "v = v1" "r' = set_props r (PropsData x)"
      by (auto simp: read_properties_def)
    with v1 Inr show ?thesis
      by (simp add: same_record_def header_of_def properties_value_def message_value_def)
  qed
qed

lemma read_message_value:
  assumes "read_message r w = (res, r', w')"
  shows "res = message_value r \<and> same_record h r r'"
proof (cases "rec_msg r")
  case (MsgData m raw)
  with assms show ?thesis
    by (auto simp: read_message_def message_value_def)
next
  case (MsgGetter c call)
  with assms show ?thesis
    by (cases call)
      (auto simp: read_message_def realizeMessage_def message_value_def same_record_def
        header_of_def properties_value_def Let_def split: option.splits
        cong: props_field.case_cong option.case_cong)
qed

lemma run_denote:
  "run h p r w = (res, r', w') \<Longrightarrow>
    res = denote p (properties_value h r) (message_value r) \<and> same_record h r r'"
proof (induction p arbitrary: r w)
  case (Ret x)
  then show ?case by auto
next
  case (Throw x)
  then show ?case by auto
next
  case (ReadProps k)
  obtain v r1 w1 where rp: "read_properties h r w = (v, r1, w1)"
    by (cases "read_properties h r w")
  from read_properties_value [OF rp] have v: "v = properties_value h r" and s: "same_record h r r1"
    by simp_all
  show ?case
  proof (cases "properties_value h r")
    case (Inl e)
    with ReadProps.prems rp v s show ?thesis
      by auto
  next
    case (Inr x)
    with ReadProps.prems rp v have "run h (k x) r1 w1 = (res, r', w')"
      by simp
    from ReadProps.IH [OF rangeI this]
    have "res = denote (k x) (properties_value h r1) (message_value r1)"
      and "same_record h r1 r'"
      by simp_all
    with v s Inr show ?thesis
      by (auto simp: same_record_def)
  qed
next
  case (ReadMessage k)
  obtain mres r1 w1 where rm: "read_message r w = (mres, r1, w1)"
    by (cases "read_message r w")
  from read_message_value [OF rm] have m: "mres = message_value r" and s: "same_record h r r1"
    by simp_all
  show ?case
  proof (cases "message_value r")
    case (Inl e)
    with ReadMessage.prems rm m s show ?thesis
      by auto
  next
    case (Inr mr)
    obtain msg raw where mr: "mr = (msg, raw)" by (cases mr)
    from ReadMessage.prems rm Inr mr m have "run h (k msg raw) r1 w1 = (res, r', w')"
      by simp
    from ReadMessage.IH [OF rangeI rangeI this]
    have "res = denote (k msg raw) (properties_value h r1) (message_value r1)"
      and "same_record h r1 r'"
      by simp_all
    with m s Inr mr show ?thesis
      by (auto simp: same_record_def)
  qed
qed

lemma accepts_same: "same_record h r r' \<Longrightarrow> accepts h f r' = accepts h f r"
  by (simp add: same_record_def accepts_def)

lemma rejects_same: "same_record h r r' \<Longrightarrow> rejects h f r' = rejects h f r"
  by (simp add: same_record_def rejects_def)

lemma filter_loop_result:
  "filter_loop h fs r w = (res, r', w') \<Longrightarrow>
     same_record h r r' \<and> (res = Inr True \<longleftrightarrow> (\<forall>f \<in> set fs. accepts h f r))"
proof (induction fs arbitrary: r w)
  case Nil
  then show ?case by auto
next
  case (Cons f fs)
  obtain res1 r1 w1 where run1: "run h (f (header_of r)) r w = (res1, r1, w1)"
    by (cases "run h (f (header_of r)) r w")
  from run_denote [OF run1]
  have res1: "denote (f (header_of r)) (properties_value h r) (message_value r) = res1"
    and s1: "same_record h r r1"
    by simp_all
  show ?case
  proof (cases res1)
    case (Inl e)
    with Cons.prems run1 res1 s1 show ?thesis
      by (auto simp: accepts_def)
  next
    case (Inr b)
    show ?thesis
    proof (cases b)
      case False
      with Inr Cons.prems run1 res1 s1 show ?thesis
        by (auto simp: accepts_def)
    next
      case True
      with Inr Cons.prems run1 have "filter_loop h fs r1 w1 = (res, r', w')"
        by simp
      from Cons.IH [OF this] have "same_record h r1 r'"
        and "res = Inr True \<longleftrightarrow> (\<forall>f \<in> set fs. accepts h f r1)"
        by simp_all
      moreover have "accepts h f r"
        using True Inr res1 by (simp add: accepts_def)
      ultimately show ?thesis
        using s1 accepts_same [OF s1] same_record_trans [OF s1] by auto
    qed
  qed
qed

lemma filter_loop_short_circuit:
  "\<forall>g \<in> set fs. accepts h g r \<Longrightarrow> rejects h f r \<Longrightarrow>
     fst (filter_loop h (fs @ f # gs) r w) = Inr False"
proof (induction fs arbitrary: r w)
  case Nil
  obtain res1 r1 w1 where run1: "run h (f (header_of r)) r w = (res1, r1, w1)"
    by (cases "run h (f (header_of r)) r w")
  from run_denote [OF run1] Nil have "res1 = Inr False"
    by (simp add: rejects_def)
  with run1 show ?case by simp
next
  case (Cons g fs)
  obtain res1 r1 w1 where run1: "run h (g (header_of r)) r w = (res1, r1, w1)"
    by (cases "run h (g (header_of r)) r w")
  from run_denote [OF run1] Cons.prems have res1: "res1 = Inr True" and s1: "same_record h r r1"
    by (simp_all add: accepts_def)
  have "fst (filter_loop h (fs @ f # gs) r1 w1) = Inr False"
    using Cons.prems accepts_same [OF s1] rejects_same [OF s1] by (intro Cons.IH) simp_all
  with run1 res1 show ?case by simp
qed

text \<open>
  Claim C3: \<^verbatim>\<open>filter\<close> returns true iff the logger has filters and every one of them
  returns true for the record, or it has none and the parent's \<^verbatim>\<open>filter\<close> returns true
  (a logger without filters and without parent accepts every record).  With own filters
  the answer does not depend on any ancestor.  The filters are called in registration
  order and the first rejection ends the loop: after filters that accept, a filter that
  rejects gives \<^verbatim>\<open>false\<close> whatever the later filters would do.
\<close>

theorem filter_logger_resolution:
  assumes "wf_heap h" and "n < length h"
  shows
    "(fst (filter_logger h n r w) = Inr True \<longleftrightarrow>
        filters (h ! n) \<noteq> [] \<and> (\<forall>f \<in> set (filters (h ! n)). accepts h f r) \<or>
        filters (h ! n) = [] \<and>
          (case parent (h ! n) of
             None \<Rightarrow> True
           | Some p \<Rightarrow> fst (filter_logger h p r w) = Inr True)) \<and>
     (\<forall>fs f gs. filters (h ! n) = fs @ f # gs \<and> (\<forall>g \<in> set fs. accepts h g r) \<and> rejects h f r
        \<longrightarrow> fst (filter_logger h n r w) = Inr False)"
proof (intro conjI allI impI)
  obtain res r' w' where loop: "filter_loop h (filters (h ! n)) r w = (res, r', w')"
    by (cases "filter_loop h (filters (h ! n)) r w")
  from filter_loop_result [OF loop]
  have res: "res = Inr True \<longleftrightarrow> (\<forall>f \<in> set (filters (h ! n)). accepts h f r)"
    by simp
  have par: "parent_of h n = parent (h ! n)"
    using assms by (rule parent_of_wf)
  show "fst (filter_logger h n r w) = Inr True \<longleftrightarrow>
        filters (h ! n) \<noteq> [] \<and> (\<forall>f \<in> set (filters (h ! n)). accepts h f r) \<or>
        filters (h ! n) = [] \<and>
          (case parent (h ! n) of
             None \<Rightarrow> True
           | Some p \<Rightarrow> fst (filter_logger h p r w) = Inr True)"
  proof (cases "filters (h ! n) = []")
    case True
    then show ?thesis
      by (subst filter_logger.simps) (simp add: par split: option.splits)
  next
    case False
    then have "fst (filter_logger h n r w) = Inr True \<longleftrightarrow> res = Inr True"
      using loop by (subst filter_logger.simps) (auto split: sum.splits)
    with res False show ?thesis
      by simp
  qed
next
  fix fs f gs
  assume a: "filters (h ! n) = fs @ f # gs \<and> (\<forall>g \<in> set fs. accepts h g r) \<and> rejects h f r"
  then have "fst (filter_loop h (filters (h ! n)) r w) = Inr False"
    using filter_loop_short_circuit [of fs h r f gs w] by simp
  then show "fst (filter_logger h n r w) = Inr False"
    by (subst filter_logger.simps) (auto split: prod.splits sum.splits)
qed

lemma wf_filter_scenario: "wf_heap filter_scenario"
  by (simp add: wf_heap_def filter_scenario_def blank_logger_def less_Suc_eq all_conj_distrib
      nth_Cons')

lemmas scenario_record_defs = info_record_def debug_record_def header_of_def

theorem filter_logger_resolution_witness:
  "wf_heap filter_scenario \<and> 3 < length filter_scenario \<and>
   fst (filter_logger filter_scenario 0 debug_record world0) = Inr True \<and>
   fst (filter_logger filter_scenario 1 info_record world0) = Inr True \<and>
   fst (filter_logger filter_scenario 1 debug_record world0) = Inr False \<and>
   fst (filter_logger filter_scenario 2 debug_record world0) = Inr True \<and>
   fst (filter_logger filter_scenario 3 info_record world0) = Inr True \<and>
   fst (filter_logger filter_scenario 3 debug_record world0) \<noteq> Inr True"
proof -
  note wf = wf_filter_scenario
  have len: "0 < length filter_scenario" "1 < length filter_scenario"
    "2 < length filter_scenario" "3 < length filter_scenario"
    by (simp_all add: filter_scenario_def)
  have root: "fst (filter_logger filter_scenario 0 debug_record world0) = Inr True"
    using filter_logger_resolution [OF wf len(1), of debug_record world0]
    by (simp add: filter_scenario_def blank_logger_def)
  have foo_info: "fst (filter_logger filter_scenario 1 info_record world0) = Inr True"
    using filter_logger_resolution [OF wf len(2), of info_record world0]
    by (simp add: filter_scenario_def blank_logger_def accepts_def scenario_record_defs)
  have foo_debug: "fst (filter_logger filter_scenario 1 debug_record world0) = Inr False"
    using filter_logger_resolution [OF wf len(2), of debug_record world0, THEN conjunct2,
        THEN spec [where x = "[]"], THEN spec [where x = "\<lambda>log. Ret (h_level log = ''info'')"],
        THEN spec [where x = "[]"]]
    by (simp add: filter_scenario_def blank_logger_def rejects_def scenario_record_defs)
  have bar: "fst (filter_logger filter_scenario 2 debug_record world0) = Inr True"
    using filter_logger_resolution [OF wf len(3), of debug_record world0]
    by (simp add: filter_scenario_def blank_logger_def accepts_def scenario_record_defs
        message_value_def)
  have quux_info: "fst (filter_logger filter_scenario 3 info_record world0) = Inr True"
    using filter_logger_resolution [OF wf len(4), of info_record world0] foo_info
    by (simp add: filter_scenario_def blank_logger_def)
  have quux_debug: "fst (filter_logger filter_scenario 3 debug_record world0) \<noteq> Inr True"
    using filter_logger_resolution [OF wf len(4), of debug_record world0] foo_debug
    by (simp add: filter_scenario_def blank_logger_def)
  from wf len(4) root foo_info foo_debug bar quux_info quux_debug show ?thesis
    by simp
qed

lemma getSinks_unfold:
  assumes "wf_heap h" and "n < length h"
  shows "getSinks h n =
     (case parent (h ! n) of
        None \<Rightarrow> sinks (h ! n)
      | Some p \<Rightarrow>
          if parentSinks (h ! n) = Inherit then getSinks h p @ sinks (h ! n)
          else sinks (h ! n))"
  by (subst getSinks.simps) (simp add: parent_of_wf [OF assms] split: option.splits)

lemma wf_sinks_scenario: "wf_heap sinks_scenario" "wf_heap sinks_scenario_override"
  by (simp_all add: wf_heap_def sinks_scenario_def sinks_scenario_override_def blank_logger_def
      less_Suc_eq all_conj_distrib nth_Cons')

lemma getSinks_scenario:
  "getSinks sinks_scenario 2 = [10, 11, 13]" "getSinks sinks_scenario_override 2 = [13]"
  by (simp_all add: getSinks.simps parent_of_def sinks_scenario_def sinks_scenario_override_def
      blank_logger_def)

text \<open>
  Claim C4: with the policy \<^verbatim>\<open>inherit\<close> and a parent, \<^verbatim>\<open>getSinks\<close> yields the
  parent's resolved sinks and then the logger's own sinks in registration order; with
  \<^verbatim>\<open>override\<close>, or without a parent, only the own sinks.  The lists are appended as
  they are, nothing is removed from them.  Root sink 10, child sink 11 and grandchild
  sink 13 resolve to 10, 11, 13 at the grandchild, and to 13 alone once the grandchild's
  policy is \<^verbatim>\<open>override\<close>.
\<close>

theorem getSinks_resolution:
  assumes "wf_heap h" and "n < length h"
  shows
    "(\<forall>p. parent (h ! n) = Some p \<and> parentSinks (h ! n) = Inherit \<longrightarrow>
        getSinks h n = getSinks h p @ sinks (h ! n)) \<and>
     (parentSinks (h ! n) = Override \<or> parent (h ! n) = None \<longrightarrow> getSinks h n = sinks (h ! n)) \<and>
     getSinks sinks_scenario 2 = [10, 11, 13] \<and>
     getSinks sinks_scenario_override 2 = [13]"
  using getSinks_unfold [OF assms] getSinks_scenario
  by (auto split: option.splits)

theorem getSinks_resolution_witness:
  "wf_heap sinks_scenario \<and> 2 < length sinks_scenario \<and>
   parent (sinks_scenario ! 2) = Some 1 \<and> parentSinks (sinks_scenario ! 2) = Inherit \<and>
   getSinks sinks_scenario 2 = getSinks sinks_scenario 1 @ [13] \<and>
   parentSinks (sinks_scenario_override ! 2) = Override \<and>
   getSinks sinks_scenario_override 2 = [13]"
proof -
  have len: "2 < length sinks_scenario" "2 < length sinks_scenario_override"
    by (simp_all add: sinks_scenario_def sinks_scenario_override_def)
  have p: "parent (sinks_scenario ! 2) = Some 1" "parentSinks (sinks_scenario ! 2) = Inherit"
    "sinks (sinks_scenario ! 2) = [13]"
    "parentSinks (sinks_scenario_override ! 2) = Override"
    "sinks (sinks_scenario_override ! 2) = [13]"
    by (simp_all add: sinks_scenario_def sinks_scenario_override_def blank_logger_def)
  from getSinks_resolution [OF wf_sinks_scenario(1) len(1)] p
  have "getSinks sinks_scenario 2 = getSinks sinks_scenario 1 @ [13]"
    by simp
  moreover from getSinks_resolution [OF wf_sinks_scenario(2) len(2)] p
  have "getSinks sinks_scenario_override 2 = [13]"
    by simp
  ultimately show ?thesis
    using wf_sinks_scenario len p by simp
qed

subsection \<open>The registry\<close>

lemma getCategoryList_strings [simp]: "getCategoryList (Arr (map Str xs)) = xs"
  by (induction xs) (simp_all add: getCategoryList_def)

lemma getChild_falsy:
  "falsy sub \<Longrightarrow> getChild st this sub None = Some (Inr this, st)"
  "falsy sub \<Longrightarrow> with_props st this p = (b, st') \<Longrightarrow>
     getChild st this sub (Some p) = Some (Inr b, st')"
  by (subst getChild.simps, simp)+

lemma getChild_unfold:
  assumes "\<not> falsy sub" and "getCategoryList sub = n # ns"
  shows "getChild st this sub props =
     (case step_child st this n of
        (Inl e, st') \<Rightarrow> Some (Inl e, st')
      | (Inr c, st') \<Rightarrow>
          if ns = [] then Some (Inr c, st') else getChild st' c (Arr (map Str ns)) None)"
  using assms
  by (subst getChild.simps)
    (simp add: step_child_def Let_def split: child_ref.splits prod.splits)

lemma getChild_descend:
  "\<not> falsy sub \<Longrightarrow> getCategoryList sub = l \<Longrightarrow> l \<noteq> [] \<Longrightarrow>
     getChild st this sub props = Some (descend st this l)"
proof (induction l arbitrary: st this sub props)
  case Nil
  then show ?case by simp
next
  case (Cons n ns)
  obtain res st' where step: "step_child st this n = (res, st')"
    by (cases "step_child st this n")
  show ?case
  proof (cases res)
    case (Inl e)
    with Cons.prems step show ?thesis
      by (simp add: getChild_unfold)
  next
    case (Inr c)
    show ?thesis
    proof (cases "ns = []")
      case True
      with Cons.prems step Inr show ?thesis
        by (simp add: getChild_unfold)
    next
      case False
      have "getChild st' c (Arr (map Str ns)) None = Some (descend st' c ns)"
        using False by (intro Cons.IH) simp_all
      with Cons.prems step Inr False show ?thesis
        by (simp add: getChild_unfold)
    qed
  qed
qed

lemma getChild_empty_list_never_returns:
  assumes "\<not> falsy sub" and "getCategoryList sub = []"
  shows "getChild st this sub props = None"
proof (rule ccontr)
  assume "getChild st this sub props \<noteq> None"
  then obtain y where y: "getChild st this sub props = Some y"
    by auto
  have "falsy sub \<or> getCategoryList sub \<noteq> []"
    using y
  proof (induction rule: getChild.raw_induct [rotated, consumes 1])
    case (1 getChild' st this sub props y)
    show ?case
    proof (rule ccontr)
      assume "\<not> (falsy sub \<or> getCategoryList sub \<noteq> [])"
      then have nf: "\<not> falsy sub" and l: "getCategoryList sub = []"
        by simp_all
      with 1(2) have "getChild' st this (Arr []) None = Some y"
        by (simp add: Let_def)
      from 1(1) [OF this] show False
        by (simp add: getCategoryList_def)
    qed
  qed
  with assms show False by simp
qed

lemma new_LoggerImpl_eq:
  "new_LoggerImpl st p c pr =
     (length (objs st),
      st\<lparr>objs := objs st @
         [\<lparr>parent = p, category = c, children = (\<lambda>_. None), sinks = [], parentSinks = Inherit,
           filters = [], propTransformers = [],
           properties = mergeProperties
              (case p of None \<Rightarrow> None | Some q \<Rightarrow> properties (objs st ! q)) pr\<rparr>]\<rparr>)"
  by (simp add: new_LoggerImpl_def)

lemma keeps_children_refl [simp]: "keeps_children st st"
  by (simp add: keeps_children_def)

lemma keeps_children_trans:
  "keeps_children st st1 \<Longrightarrow> keeps_children st1 st2 \<Longrightarrow> keeps_children st st2"
  by (auto simp: keeps_children_def)

lemma step_child_created:
  assumes "n \<noteq> []" and "children (objs st ! this) n = None"
    and "n \<notin> set object_prototype_keys" and "this < length (objs st)"
  shows "step_child st this n =
     (Inr (length (objs st)),
      st\<lparr>objs := (objs st)[this := (objs st ! this)
                     \<lparr>children := (children (objs st ! this))(n \<mapsto> length (objs st))\<rparr>] @
         [\<lparr>parent = Some this, category = category (objs st ! this) @ [n],
           children = (\<lambda>_. None), sinks = [], parentSinks = Inherit, filters = [],
           propTransformers = [],
           properties = mergeProperties (properties (objs st ! this)) None\<rparr>]\<rparr>)"
  using assms
  by (simp add: step_child_def children_get_def new_LoggerImpl_eq nth_append
      list_update_append)

lemma step_child_inherited:
  assumes "n \<noteq> []" and "children (objs st ! this) n = None"
    and "n \<in> set object_prototype_keys"
  shows "step_child st this n = (Inl (TypeError ''childRef.deref is not a function''), st)"
  using assms by (simp add: step_child_def children_get_def)

lemma step_child_registered:
  assumes "n \<noteq> []" and "children (objs st ! this) n = Some c"
  shows "step_child st this n = (Inr c, st)"
  using assms by (simp add: step_child_def children_get_def)

lemma step_child_error:
  "step_child st this n = (Inl e, st') \<Longrightarrow> st' = st"
  by (auto simp: step_child_def children_get_def new_LoggerImpl_eq
      split: if_splits option.splits)

lemma step_child_plain:
  assumes "n \<notin> set object_prototype_keys"
  shows "\<exists>c st'. step_child st this n = (Inr c, st')"
  using assms
  by (auto simp: step_child_def children_get_def new_LoggerImpl_eq split: option.splits)

lemma step_child_wf:
  assumes "wf_heap (objs st)" and "this < length (objs st)"
    and "step_child st this n = (Inr c, st')"
  shows "wf_heap (objs st') \<and> c < length (objs st') \<and> keeps_children st st' \<and>
    (n \<noteq> [] \<longrightarrow> children (objs st' ! this) n = Some c)"
proof (cases "n = []")
  case True
  with assms show ?thesis
    by (simp add: step_child_def)
next
  case False
  show ?thesis
  proof (cases "children (objs st ! this) n")
    case (Some x)
    with False assms show ?thesis
      by (auto simp: step_child_registered wf_heap_def)
  next
    case None
    have plain: "n \<notin> set object_prototype_keys"
      using step_child_inherited [OF False None] assms(3) by auto
    from step_child_created [OF False None plain assms(2)] assms(3)
    have c: "c = length (objs st)"
      and st': "objs st' = (objs st)[this := (objs st ! this)
                     \<lparr>children := (children (objs st ! this))(n \<mapsto> length (objs st))\<rparr>] @
         [\<lparr>parent = Some this, category = category (objs st ! this) @ [n],
           children = (\<lambda>_. None), sinks = [], parentSinks = Inherit, filters = [],
           propTransformers = [],
           properties = mergeProperties (properties (objs st ! this)) None\<rparr>]"
      and root: "rootLogger st' = rootLogger st"
      by auto
    have "wf_heap (objs st')"
      unfolding wf_heap_def
    proof (intro allI impI)
      fix a assume a: "a < length (objs st')"
      show "(\<forall>p. parent (objs st' ! a) = Some p \<longrightarrow> p < a) \<and>
        (\<forall>m x. children (objs st' ! a) m = Some x \<longrightarrow> x < length (objs st'))"
      proof (cases "a < length (objs st)")
        case True
        with assms(1) show ?thesis
          by (cases "a = this")
            (auto simp: st' nth_append wf_heap_def nth_list_update less_Suc_eq split: if_splits)
      next
        case False
        with a have "a = length (objs st)"
          by (simp add: st')
        with assms(2) show ?thesis
          by (simp add: st' nth_append)
      qed
    qed
    moreover have "keeps_children st st'"
      using assms(2) None
      by (auto simp: keeps_children_def st' root nth_append nth_list_update)
    moreover have "children (objs st' ! this) n = Some c"
      using assms(2) by (simp add: st' c nth_append)
    ultimately show ?thesis
      by (simp add: c st')
  qed
qed

lemma step_child_idem:
  assumes "wf_heap (objs st)" and "this < length (objs st)"
    and "step_child st this n = (Inr c, st')"
  shows "step_child st' this n = (Inr c, st')"
proof (cases "n = []")
  case True
  with assms show ?thesis by (simp add: step_child_def)
next
  case False
  with step_child_wf [OF assms] show ?thesis
    by (simp add: step_child_registered)
qed

lemma descend_step:
  assumes "descend st this (n # ns) = (Inr r, st')"
  obtains c st1 where "step_child st this n = (Inr c, st1)" "descend st1 c ns = (Inr r, st')"
proof -
  obtain res st1 where step: "step_child st this n = (res, st1)"
    by (cases "step_child st this n")
  with assms obtain c where "res = Inr c"
    by (cases res) auto
  with step assms that show ?thesis
    by simp
qed

lemma descend_plain:
  "\<forall>n \<in> set l. n \<notin> set object_prototype_keys \<Longrightarrow> \<exists>r st'. descend st this l = (Inr r, st')"
proof (induction l arbitrary: st this)
  case Nil
  show ?case by simp
next
  case (Cons n ns)
  from Cons.prems step_child_plain [of n st this]
  obtain c st1 where "step_child st this n = (Inr c, st1)"
    by auto
  moreover from Cons.prems Cons.IH [of st1 c]
  obtain r st' where "descend st1 c ns = (Inr r, st')"
    by auto
  ultimately show ?case
    by simp
qed

lemma descend_wf:
  "wf_heap (objs st) \<Longrightarrow> this < length (objs st) \<Longrightarrow> descend st this l = (Inr r, st') \<Longrightarrow>
     wf_heap (objs st') \<and> r < length (objs st') \<and> keeps_children st st'"
proof (induction l arbitrary: st this)
  case Nil
  then show ?case by simp
next
  case (Cons n ns)
  from Cons.prems(3) obtain c st1 where step: "step_child st this n = (Inr c, st1)"
    and d: "descend st1 c ns = (Inr r, st')"
    by (rule descend_step)
  from step_child_wf [OF Cons.prems(1,2) step]
  have 1: "wf_heap (objs st1)" "c < length (objs st1)" "keeps_children st st1"
    by simp_all
  from Cons.IH [OF 1(1,2) d] 1(3) show ?case
    by (auto intro: keeps_children_trans)
qed

lemma descend_idem:
  "wf_heap (objs st) \<Longrightarrow> this < length (objs st) \<Longrightarrow> descend st this l = (Inr r, st') \<Longrightarrow>
     descend st' this l = (Inr r, st')"
proof (induction l arbitrary: st this)
  case Nil
  then show ?case by simp
next
  case (Cons n ns)
  from Cons.prems(3) obtain c st1 where step: "step_child st this n = (Inr c, st1)"
    and d: "descend st1 c ns = (Inr r, st')"
    by (rule descend_step)
  from step_child_wf [OF Cons.prems(1,2) step]
  have 1: "wf_heap (objs st1)" "c < length (objs st1)" "keeps_children st st1"
    "n \<noteq> [] \<longrightarrow> children (objs st1 ! this) n = Some c"
    by simp_all
  from descend_wf [OF 1(1,2) d] have 2: "keeps_children st1 st'"
    by simp
  have this1: "this < length (objs st1)"
    using Cons.prems(2) 1(3) by (simp add: keeps_children_def)
  have "step_child st' this n = (Inr c, st')"
  proof (cases "n = []")
    case True
    with step show ?thesis by (simp add: step_child_def)
  next
    case False
    with 1(4) 2 this1 have "children (objs st' ! this) n = Some c"
      by (simp add: keeps_children_def)
    with False show ?thesis by (simp add: step_child_registered)
  qed
  with Cons.IH [OF 1(1,2) d] show ?case
    by simp
qed

lemma not_falsy_length:
  "category_length c = Some k \<Longrightarrow> k \<noteq> 0 \<Longrightarrow> \<not> falsy c"
  by (cases c) auto

lemma getLogger_rooted:
  assumes "rootLogger st = Some root"
  shows "getLogger st C =
     (case category_length (case C of Undefined \<Rightarrow> Arr [] | c \<Rightarrow> c) of
        None \<Rightarrow> Some (Inl (TypeError ''Cannot read properties of null''), st)
      | Some k \<Rightarrow>
          if k = 0 then Some (Inr root, st)
          else getChild st root (case C of Undefined \<Rightarrow> Arr [] | c \<Rightarrow> c) None)"
  using assms by (simp add: getLogger_def Let_def)

lemma getLogger_unrooted:
  assumes "rootLogger st = None"
  shows "getLogger st C =
     getLogger (st\<lparr>objs := objs st @ [blank_logger None []], rootLogger := Some (length (objs st))\<rparr>) C"
  using assms
  by (simp add: getLogger_def Let_def new_LoggerImpl_eq blank_logger_def mergeProperties_def)

lemma wf_heap_append_root:
  "wf_heap h \<Longrightarrow> wf_heap (h @ [blank_logger None []])"
  by (auto simp: wf_heap_def nth_append blank_logger_def less_Suc_eq)

lemma getLogger_rooted_stable:
  assumes wf: "wf_registry st" and root: "rootLogger st = Some root"
    and get: "getLogger st C = Some (Inr a, st')"
  shows "getLogger st' C = Some (Inr a, st') \<and> wf_registry st' \<and> a < length (objs st') \<and>
    keeps_children st st'"
proof -
  define c where "c = (case C of Undefined \<Rightarrow> Arr [] | c \<Rightarrow> c)"
  from wf root have r: "root < length (objs st)" and wfh: "wf_heap (objs st)"
    by (simp_all add: wf_registry_def)
  from get root obtain k where k: "category_length c = Some k"
    by (auto simp: getLogger_rooted c_def split: option.splits)
  show ?thesis
  proof (cases "k = 0")
    case True
    with get root k wf r show ?thesis
      by (auto simp: getLogger_rooted c_def [symmetric])
  next
    case False
    with get root k have gc: "getChild st root c None = Some (Inr a, st')"
      by (simp add: getLogger_rooted c_def [symmetric])
    have nf: "\<not> falsy c"
      using k False by (rule not_falsy_length)
    have ne: "getCategoryList c \<noteq> []"
      using getChild_empty_list_never_returns [OF nf, of st root None] gc by auto
    from getChild_descend [OF nf refl ne, of st root None] gc
    have d: "descend st root (getCategoryList c) = (Inr a, st')"
      by simp
    from descend_wf [OF wfh r d]
    have 1: "wf_heap (objs st')" "a < length (objs st')" "keeps_children st st'"
      by simp_all
    then have root': "rootLogger st' = Some root" and r': "root < length (objs st')"
      using root r by (simp_all add: keeps_children_def)
    have "getChild st' root c None = Some (Inr a, st')"
      using getChild_descend [OF nf refl ne, of st' root None] descend_idem [OF wfh r d]
      by simp
    with root' k False 1 r' show ?thesis
      by (simp add: getLogger_rooted c_def [symmetric] wf_registry_def)
  qed
qed

lemma keeps_children_append:
  "keeps_children st (st\<lparr>objs := objs st @ xs\<rparr>)"
  by (simp add: keeps_children_def nth_append)

text \<open>
  Repeated calls: when \<^verbatim>\<open>getLogger(C)\<close> returns a logger, a second call returns the same
  logger and leaves the registry as it is.
\<close>

lemma getLogger_stable:
  assumes wf: "wf_registry st" and get: "getLogger st C = Some (Inr a, st')"
  shows "getLogger st' C = Some (Inr a, st') \<and> wf_registry st' \<and> a < length (objs st')"
proof (cases "rootLogger st")
  case (Some root)
  from getLogger_rooted_stable [OF wf Some get] show ?thesis
    by simp
next
  case None
  define st0 where
    "st0 = st\<lparr>objs := objs st @ [blank_logger None []], rootLogger := Some (length (objs st))\<rparr>"
  have "wf_registry st0" "rootLogger st0 = Some (length (objs st))"
    using wf by (simp_all add: wf_registry_def st0_def wf_heap_append_root)
  moreover have "getLogger st0 C = Some (Inr a, st')"
    using get getLogger_unrooted [OF None, of C] by (simp add: st0_def)
  ultimately show ?thesis
    using getLogger_rooted_stable [of st0 "length (objs st)" C a st'] by simp
qed

text \<open>
  \<^verbatim>\<open>getLogger(C)\<close> returns a logger for every category that is empty itself or has a
  string leaf, when no leaf is the name of a member of \<^verbatim>\<open>Object.prototype\<close>.
\<close>

lemma getLogger_returns:
  assumes "category_length C = Some 0 \<or> C = Undefined \<or>
      C \<noteq> Null \<and> getCategoryList C \<noteq> []"
    and plain: "\<forall>n \<in> set (getCategoryList C). n \<notin> set object_prototype_keys"
  shows "\<exists>a st'. getLogger st C = Some (Inr a, st')"
proof -
  define c where "c = (case C of Undefined \<Rightarrow> Arr [] | c \<Rightarrow> c)"
  have *: "\<exists>a st'. getLogger st0 C = Some (Inr a, st')" if root: "rootLogger st0 = Some root"
    for st0 root
  proof (cases "category_length c")
    case None
    with assms(1) show ?thesis
      by (cases C) (auto simp: c_def getCategoryList_def)
  next
    case (Some k)
    show ?thesis
    proof (cases "k = 0")
      case True
      with Some root show ?thesis
        by (simp add: getLogger_rooted c_def [symmetric])
    next
      case False
      have nf: "\<not> falsy c"
        using Some False by (rule not_falsy_length)
      have cC: "c = C"
        using Some False by (cases C) (auto simp: c_def)
      have ne: "getCategoryList c \<noteq> []"
        using assms(1) Some False by (cases C) (auto simp: c_def)
      from descend_plain [of "getCategoryList c" st0 root] plain cC
      obtain r st' where "descend st0 root (getCategoryList c) = (Inr r, st')"
        by auto
      with getChild_descend [OF nf refl ne, of st0 root None] Some False root
      show ?thesis
        by (simp add: getLogger_rooted c_def [symmetric])
    qed
  qed
  show ?thesis
  proof (cases "rootLogger st")
    case (Some root)
    then show ?thesis by (rule *)
  next
    case None
    show ?thesis
      unfolding getLogger_unrooted [OF None] by (rule *) simp
  qed
qed

lemma getLogger_root:
  "getLogger st (Arr []) = getLogger st Undefined"
  "getLogger st (Arr []) = Some (Inr a, st') \<Longrightarrow> rootLogger st' = Some a"
  by (auto simp: getLogger_def Let_def new_LoggerImpl_eq split: option.splits)

lemma getChild_empty_segment:
  "getChild st this (Str []) None = Some (Inr this, st)"
  "getChild st this (Arr [Str []]) None = Some (Inr this, st)"
  "getChild st this Null None = Some (Inr this, st)"
  "getChild st this Undefined None = Some (Inr this, st)"
  by (simp_all add: getChild_falsy getChild_unfold [where n = "[]" and ns = "[]"]
      getCategoryList_def step_child_def)

text \<open>
  Claim C5 fails at a category all of whose leaves are absent, such as \<^verbatim>\<open>[[]]\<close>:
  \<^verbatim>\<open>getLogger\<close> passes it to \<^verbatim>\<open>getChild\<close> because its length is not zero, the
  normalised list is empty, and \<^verbatim>\<open>getChild\<close> calls itself on the same logger with
  \<^verbatim>\<open>[].slice(1)\<close>, the empty list again.  No logger is returned; the same holds for
  \<^verbatim>\<open>getChild([])\<close> and \<^verbatim>\<open>getChild([null])\<close> on any logger.
\<close>

theorem getLogger_nested_empty_never_returns:
  "getLogger st (Arr [Arr []]) = None \<and>
   getChild st this (Arr []) None = None \<and>
   getChild st this (Arr [Null]) None = None"
proof -
  have "getChild st0 root (Arr [Arr []]) None = None" for st0 root
    by (rule getChild_empty_list_never_returns) (simp_all add: getCategoryList_def)
  then have "getLogger st (Arr [Arr []]) = None"
    by (simp add: getLogger_def Let_def split: option.splits prod.splits)
  moreover have "getChild st this (Arr []) None = None"
    by (rule getChild_empty_list_never_returns) (simp_all add: getCategoryList_def)
  moreover have "getChild st this (Arr [Null]) None = None"
    by (rule getChild_empty_list_never_returns) (simp_all add: getCategoryList_def)
  ultimately show ?thesis by simp
qed

lemma step_child_avoids:
  assumes "this < length (objs st)" and "this \<notin> B" and "no_refs_into st B"
    and "\<forall>b \<in> B. b < length (objs st)" and "step_child st this n = (Inr c, st')"
  shows "c \<notin> B \<and> no_refs_into st' B \<and> (\<forall>b \<in> B. b < length (objs st'))"
proof (cases "n = []")
  case True
  with assms show ?thesis by (simp add: step_child_def)
next
  case False
  show ?thesis
  proof (cases "children (objs st ! this) n")
    case (Some x)
    with False assms(5) have "c = x" "st' = st"
      by (simp_all add: step_child_registered)
    moreover have "x \<notin> B"
      using assms(1,2,3) Some by (simp add: no_refs_into_def)
    ultimately show ?thesis
      using assms(3,4) by simp
  next
    case None
    have plain: "n \<notin> set object_prototype_keys"
      using step_child_inherited [OF False None] assms(5) by auto
    from step_child_created [OF False None plain assms(1)] assms(5)
    have c: "c = length (objs st)"
      and st': "objs st' = (objs st)[this := (objs st ! this)
                     \<lparr>children := (children (objs st ! this))(n \<mapsto> length (objs st))\<rparr>] @
         [\<lparr>parent = Some this, category = category (objs st ! this) @ [n],
           children = (\<lambda>_. None), sinks = [], parentSinks = Inherit, filters = [],
           propTransformers = [],
           properties = mergeProperties (properties (objs st ! this)) None\<rparr>]"
      by auto
    have len: "length (objs st') = Suc (length (objs st))"
      by (simp add: st')
    have cB: "length (objs st) \<notin> B"
      using assms(4) by auto
    have "no_refs_into st' B"
      unfolding no_refs_into_def
    proof (intro allI impI)
      fix a m x
      assume a: "a < length (objs st')" "a \<notin> B" and ch: "children (objs st' ! a) m = Some x"
      consider "a = this" | "a \<noteq> this" "a < length (objs st)" | "a = length (objs st)"
        using a(1) len by linarith
      then show "x \<notin> B"
      proof cases
        case 1
        with assms(1) ch
        have "((children (objs st ! this))(n \<mapsto> length (objs st))) m = Some x"
          by (simp add: st' nth_append)
        then have "x = length (objs st) \<or> children (objs st ! this) m = Some x"
          by (simp split: if_splits)
        with cB assms(1,2,3) show ?thesis
          by (auto simp: no_refs_into_def)
      next
        case 2
        with ch have "children (objs st ! a) m = Some x"
          by (simp add: st' nth_append)
        with 2 a(2) assms(3) show ?thesis
          by (simp add: no_refs_into_def)
      next
        case 3
        with ch show ?thesis by (simp add: st' nth_append)
      qed
    qed
    moreover have "\<forall>b \<in> B. b < length (objs st')"
      using assms(4) len by auto
    ultimately show ?thesis
      using cB by (simp add: c)
  qed
qed

lemma descend_avoids:
  "wf_heap (objs st) \<Longrightarrow> this < length (objs st) \<Longrightarrow> this \<notin> B \<Longrightarrow> no_refs_into st B \<Longrightarrow>
   \<forall>b \<in> B. b < length (objs st) \<Longrightarrow> descend st this l = (Inr r, st') \<Longrightarrow> r \<notin> B"
proof (induction l arbitrary: st this)
  case Nil
  then show ?case by simp
next
  case (Cons n ns)
  from Cons.prems(6) obtain c st1 where step: "step_child st this n = (Inr c, st1)"
    and d: "descend st1 c ns = (Inr r, st')"
    by (rule descend_step)
  from step_child_avoids [OF Cons.prems(2-5) step]
  have 1: "c \<notin> B" "no_refs_into st1 B" "\<forall>b \<in> B. b < length (objs st1)"
    by simp_all
  from step_child_wf [OF Cons.prems(1,2) step]
  have 2: "wf_heap (objs st1)" "c < length (objs st1)"
    by simp_all
  from Cons.IH [OF 2 1 d] show ?case .
qed

lemma fold_update_other:
  "k \<notin> fst ` set p \<Longrightarrow> map_of (fold (\<lambda>(k, v). AList.update k v) p d) k = map_of d k"
  by (induction p arbitrary: d) (auto simp: update_conv')

lemma spread_lookup:
  "distinct (map fst p) \<Longrightarrow> (k, v) \<in> set p \<Longrightarrow> map_of (spread d p) k = Some v"
proof (induction p arbitrary: d)
  case Nil
  then show ?case by simp
next
  case (Cons x p)
  obtain k' v' where x: "x = (k', v')" by (cases x)
  show ?case
  proof (cases "(k, v) = (k', v')")
    case True
    with Cons.prems x have "k \<notin> fst ` set p" by auto
    from fold_update_other [OF this] True x show ?thesis
      by (simp add: spread_def update_conv')
  next
    case False
    with Cons.prems x have "(k, v) \<in> set p" "distinct (map fst p)" by auto
    from Cons.IH [OF this(2,1)] x show ?thesis
      by (simp add: spread_def)
  qed
qed

lemma mergeProperties_includes:
  assumes "distinct (map fst p)" and "(k, v) \<in> set p"
  shows "\<exists>q. mergeProperties d (Some p) = Some q \<and> map_of q k = Some v"
proof (cases d)
  case None
  with assms show ?thesis by (simp add: mergeProperties_def)
next
  case (Some d')
  with spread_lookup [OF assms, of d'] show ?thesis by (simp add: mergeProperties_def)
qed

lemma mergeProperties_None [simp]: "mergeProperties d None = d"
  by (cases d) (simp_all add: mergeProperties_def)

lemma wf_heap_append:
  assumes "wf_heap h" and "\<forall>q. parent obj = Some q \<longrightarrow> q < length h"
    and "children obj = (\<lambda>_. None)"
  shows "wf_heap (h @ [obj])"
  unfolding wf_heap_def
proof (intro allI impI)
  fix a assume "a < length (h @ [obj])"
  then consider "a < length h" | "a = length h" by fastforce
  then show "(\<forall>p. parent ((h @ [obj]) ! a) = Some p \<longrightarrow> p < a) \<and>
    (\<forall>n c. children ((h @ [obj]) ! a) n = Some c \<longrightarrow> c < length (h @ [obj]))"
  proof cases
    case 1
    with assms(1) show ?thesis
      by (simp add: wf_heap_def nth_append less_Suc_eq)
  next
    case 2
    with assms(2,3) show ?thesis
      by (simp add: nth_append)
  qed
qed

lemma no_refs_into_append:
  assumes "no_refs_into st B" and "children obj = (\<lambda>_. None)"
  shows "no_refs_into (st\<lparr>objs := objs st @ [obj], rootLogger := r\<rparr>) B"
  unfolding no_refs_into_def
proof (intro allI impI)
  fix a m x
  assume a: "a < length (objs (st\<lparr>objs := objs st @ [obj], rootLogger := r\<rparr>))" "a \<notin> B"
    and ch: "children (objs (st\<lparr>objs := objs st @ [obj], rootLogger := r\<rparr>) ! a) m = Some x"
  from a(1) consider "a < length (objs st)" | "a = length (objs st)" by fastforce
  then show "x \<notin> B"
  proof cases
    case 1
    with a(2) ch assms(1) show ?thesis
      by (simp add: no_refs_into_def nth_append)
  next
    case 2
    with ch assms(2) show ?thesis
      by (simp add: nth_append)
  qed
qed

lemma getLogger_avoids:
  assumes wf: "wf_registry st" and refs: "no_refs_into st B"
    and B: "\<forall>b \<in> B. b < length (objs st)"
    and root: "\<forall>r. rootLogger st = Some r \<longrightarrow> r \<notin> B"
    and get: "getLogger st C = Some (Inr x, st')"
  shows "x \<notin> B"
proof -
  define c where "c = (case C of Undefined \<Rightarrow> Arr [] | c \<Rightarrow> c)"
  have *: "x \<notin> B"
    if wf0: "wf_heap (objs st0)" and r0: "rootLogger st0 = Some r" "r < length (objs st0)" "r \<notin> B"
      and refs0: "no_refs_into st0 B" and B0: "\<forall>b \<in> B. b < length (objs st0)"
      and get0: "getLogger st0 C = Some (Inr x, st')" for st0 r
  proof -
    from get0 r0(1) obtain k where k: "category_length c = Some k"
      by (auto simp: getLogger_rooted c_def split: option.splits)
    show ?thesis
    proof (cases "k = 0")
      case True
      with get0 r0 k show ?thesis
        by (auto simp: getLogger_rooted c_def [symmetric])
    next
      case False
      with get0 r0(1) k have gc: "getChild st0 r c None = Some (Inr x, st')"
        by (simp add: getLogger_rooted c_def [symmetric])
      have nf: "\<not> falsy c"
        using k False by (rule not_falsy_length)
      have ne: "getCategoryList c \<noteq> []"
        using getChild_empty_list_never_returns [OF nf, of st0 r None] gc by auto
      from getChild_descend [OF nf refl ne, of st0 r None] gc
      have "descend st0 r (getCategoryList c) = (Inr x, st')"
        by simp
      from descend_avoids [OF wf0 r0(2,3) refs0 B0 this] show ?thesis .
    qed
  qed
  show ?thesis
  proof (cases "rootLogger st")
    case (Some r)
    with wf root refs B get show ?thesis
      by (intro * [of st r]) (simp_all add: wf_registry_def)
  next
    case None
    define st0 where
      "st0 = st\<lparr>objs := objs st @ [blank_logger None []], rootLogger := Some (length (objs st))\<rparr>"
    have "length (objs st) \<notin> B"
      using B by auto
    moreover have "no_refs_into st0 B"
      unfolding st0_def using refs by (rule no_refs_into_append) (simp add: blank_logger_def)
    moreover have "getLogger st0 C = Some (Inr x, st')"
      using get getLogger_unrooted [OF None, of C] by (simp add: st0_def)
    moreover have "wf_heap (objs st0)"
      using wf by (simp add: st0_def wf_registry_def wf_heap_append_root)
    moreover have "\<forall>b \<in> B. b < length (objs st0)"
      using B by (auto simp: st0_def)
    ultimately show ?thesis
      by (intro * [of st0 "length (objs st)"]) (simp_all add: st0_def)
  qed
qed


text \<open>
  Claim C10: for a logger \<open>n\<close> with category \<open>C\<close>, \<^verbatim>\<open>n.with(p)\<close> is a new object \<open>b\<close>
  with parent \<open>n\<close>, the category \<open>C\<close> and a table of children without own properties.
  For a name \<open>s\<close> (a non-empty string) that \<^verbatim>\<open>Object.prototype\<close> has no member for,
  \<^verbatim>\<open>b.getChild(s)\<close> returns a logger \<open>c\<close> with parent \<open>b\<close> and category \<open>C\<close> followed
  by \<open>s\<close> whose bound properties have every key of \<open>p\<close> with its value; whenever the
  canonical \<^verbatim>\<open>getLogger\<close> for \<open>C\<close> followed by \<open>s\<close> returns a logger, it is another
  object than \<open>c\<close> and than \<open>b\<close>, and it does return one when no name in \<open>C\<close> is a
  member of \<^verbatim>\<open>Object.prototype\<close> either.  For a name such as \<^verbatim>\<open>toString\<close>, the claim
  fails: \<^verbatim>\<open>b.getChild(s)\<close> finds the inherited member in the table and throws a
  \<^verbatim>\<open>TypeError\<close>, and no logger is made.
\<close>

theorem with_child_not_canonical:
  assumes wf: "wf_registry st" and n: "n < length (objs st)" and s: "s \<noteq> []"
    and p: "distinct (map fst p)"
  shows "\<exists>b st1.
     with_props st n p = (b, st1) \<and> b = length (objs st) \<and>
     parent (objs st1 ! b) = Some n \<and> children (objs st1 ! b) = (\<lambda>_. None) \<and>
     category (objs st1 ! b) = category (objs st ! n) \<and>
     (s \<in> set object_prototype_keys \<longrightarrow>
        getChild st1 b (Str s) None =
          Some (Inl (TypeError ''childRef.deref is not a function''), st1)) \<and>
     (s \<notin> set object_prototype_keys \<longrightarrow>
        (\<exists>c st2.
           getChild st1 b (Str s) None = Some (Inr c, st2) \<and>
           parent (objs st2 ! c) = Some b \<and>
           category (objs st2 ! c) = category (objs st ! n) @ [s] \<and>
           (\<forall>(k, v) \<in> set p. \<exists>q. properties (objs st2 ! c) = Some q \<and> map_of q k = Some v) \<and>
           (\<forall>x st3.
              getLogger st2 (Arr (map Str (category (objs st ! n) @ [s]))) = Some (Inr x, st3)
              \<longrightarrow> x \<noteq> c \<and> x \<noteq> b) \<and>
           ((\<forall>m \<in> set (category (objs st ! n)). m \<notin> set object_prototype_keys) \<longrightarrow>
              (\<exists>x st3.
                 getLogger st2 (Arr (map Str (category (objs st ! n) @ [s])))
                   = Some (Inr x, st3)))))"
proof -
  define b where "b = length (objs st)"
  define objb where "objb =
    \<lparr>parent = Some n, category = category (objs st ! n), children = (\<lambda>_. None), sinks = [],
     parentSinks = Inherit, filters = [], propTransformers = [],
     properties = mergeProperties (properties (objs st ! n)) (Some p)\<rparr>"
  define st1 where "st1 = st\<lparr>objs := objs st @ [objb]\<rparr>"
  have w: "with_props st n p = (b, st1)"
    by (simp add: with_props_def new_LoggerImpl_eq b_def st1_def objb_def)
  have b1: "objs st1 ! b = objb" "b < length (objs st1)" "length (objs st1) = Suc b"
    by (simp_all add: st1_def b_def)
  have wf1: "wf_heap (objs st1)"
    unfolding st1_def using wf n by (simp add: wf_registry_def wf_heap_append objb_def)
  have none: "children (objs st1 ! b) s = None"
    by (simp add: b1 objb_def)
  have unfold: "getChild st1 b (Str s) None =
      (case step_child st1 b s of
         (Inl e, st') \<Rightarrow> Some (Inl e, st')
       | (Inr c, st') \<Rightarrow> Some (Inr c, st'))"
    using s
    by (simp add: getChild_unfold [where n = s and ns = "[]"] getCategoryList_def
        split: prod.splits sum.splits)
  have inherited: "getChild st1 b (Str s) None =
      Some (Inl (TypeError ''childRef.deref is not a function''), st1)"
    if "s \<in> set object_prototype_keys"
    using step_child_inherited [OF s none that] by (simp add: unfold)
  have plain: "\<exists>c st2.
       getChild st1 b (Str s) None = Some (Inr c, st2) \<and>
       parent (objs st2 ! c) = Some b \<and>
       category (objs st2 ! c) = category (objs st ! n) @ [s] \<and>
       (\<forall>(k, v) \<in> set p. \<exists>q. properties (objs st2 ! c) = Some q \<and> map_of q k = Some v) \<and>
       (\<forall>x st3.
          getLogger st2 (Arr (map Str (category (objs st ! n) @ [s]))) = Some (Inr x, st3)
          \<longrightarrow> x \<noteq> c \<and> x \<noteq> b) \<and>
       ((\<forall>m \<in> set (category (objs st ! n)). m \<notin> set object_prototype_keys) \<longrightarrow>
          (\<exists>x st3.
             getLogger st2 (Arr (map Str (category (objs st ! n) @ [s])))
               = Some (Inr x, st3)))"
    if sp: "s \<notin> set object_prototype_keys"
  proof -
    define c where "c = Suc b"
    define st2 where "st2 = st1\<lparr>objs := (objs st1)[b := (objs st1 ! b)
                     \<lparr>children := (children (objs st1 ! b))(s \<mapsto> length (objs st1))\<rparr>] @
         [\<lparr>parent = Some b, category = category (objs st1 ! b) @ [s],
           children = (\<lambda>_. None), sinks = [], parentSinks = Inherit, filters = [],
           propTransformers = [],
           properties = mergeProperties (properties (objs st1 ! b)) None\<rparr>]\<rparr>"
    from step_child_created [OF s none sp b1(2)]
    have step: "step_child st1 b s = (Inr c, st2)"
      by (simp add: c_def st2_def b1)
    have st2: "objs st2 = (objs st1)[b := (objs st1 ! b)
                     \<lparr>children := (children (objs st1 ! b))(s \<mapsto> length (objs st1))\<rparr>] @
         [\<lparr>parent = Some b, category = category (objs st1 ! b) @ [s],
           children = (\<lambda>_. None), sinks = [], parentSinks = Inherit, filters = [],
           propTransformers = [],
           properties = mergeProperties (properties (objs st1 ! b)) None\<rparr>]"
      and root2: "rootLogger st2 = rootLogger st1"
      by (simp_all add: st2_def)
    have gc: "getChild st1 b (Str s) None = Some (Inr c, st2)"
      using step by (simp add: unfold)
    have objc: "parent (objs st2 ! c) = Some b"
      "category (objs st2 ! c) = category (objs st ! n) @ [s]"
      "properties (objs st2 ! c) = mergeProperties (properties (objs st ! n)) (Some p)"
      by (simp_all add: st2 c_def b1 nth_append objb_def)
    have props: "\<forall>(k, v) \<in> set p. \<exists>q. properties (objs st2 ! c) = Some q \<and> map_of q k = Some v"
      using mergeProperties_includes [OF p] by (auto simp: objc)
    from step_child_wf [OF wf1 b1(2) step] have wf2: "wf_heap (objs st2)"
      by simp
    have len2: "length (objs st2) = Suc (Suc b)"
      by (simp add: st2 b1)
    have old: "objs st2 ! a = objs st ! a" if "a < b" for a
      using that by (simp add: st2 nth_append b1 st1_def b_def)
    have refs: "no_refs_into st2 {b, c}"
      unfolding no_refs_into_def
    proof (intro allI impI)
      fix a m x
      assume a: "a < length (objs st2)" "a \<notin> {b, c}" and ch: "children (objs st2 ! a) m = Some x"
      with len2 have "a < b" by (auto simp: c_def)
      with ch old wf have "x < b"
        by (auto simp: wf_registry_def wf_heap_def b_def)
      then show "x \<notin> {b, c}" by (simp add: c_def)
    qed
    have wfr2: "wf_registry st2"
      using wf wf2 root2 len2 by (auto simp: wf_registry_def st1_def b_def)
    have rootB: "\<forall>r. rootLogger st2 = Some r \<longrightarrow> r \<notin> {b, c}"
      using wf root2 by (auto simp: wf_registry_def st1_def b_def c_def)
    have distinct': "x \<noteq> c \<and> x \<noteq> b"
      if get: "getLogger st2 (Arr (map Str (category (objs st ! n) @ [s]))) = Some (Inr x, st3)"
      for x st3
    proof -
      have "x \<notin> {b, c}"
        using wfr2 refs _ rootB get by (rule getLogger_avoids) (simp add: len2 c_def)
      then show ?thesis by simp
    qed
    have returns: "\<exists>x st3.
        getLogger st2 (Arr (map Str (category (objs st ! n) @ [s]))) = Some (Inr x, st3)"
      if "\<forall>m \<in> set (category (objs st ! n)). m \<notin> set object_prototype_keys"
    proof (rule getLogger_returns)
      show "category_length (Arr (map Str (category (objs st ! n) @ [s]))) = Some 0 \<or>
        Arr (map Str (category (objs st ! n) @ [s])) = Undefined \<or>
        Arr (map Str (category (objs st ! n) @ [s])) \<noteq> Null \<and>
        getCategoryList (Arr (map Str (category (objs st ! n) @ [s]))) \<noteq> []"
        unfolding getCategoryList_strings by simp
      show "\<forall>m \<in> set (getCategoryList (Arr (map Str (category (objs st ! n) @ [s])))).
          m \<notin> set object_prototype_keys"
        unfolding getCategoryList_strings using that sp by simp
    qed
    from distinct' have distinct'': "\<forall>x st3.
          getLogger st2 (Arr (map Str (category (objs st ! n) @ [s]))) = Some (Inr x, st3)
          \<longrightarrow> x \<noteq> c \<and> x \<noteq> b"
      by blast
    from returns have returns': "(\<forall>m \<in> set (category (objs st ! n)). m \<notin> set object_prototype_keys) \<longrightarrow>
          (\<exists>x st3.
             getLogger st2 (Arr (map Str (category (objs st ! n) @ [s])))
               = Some (Inr x, st3))"
      by blast
    from gc objc(1,2) props distinct'' returns' show ?thesis
      by (intro exI [of _ c] exI [of _ st2] conjI)
  qed
  have objb: "b = length (objs st)" "parent (objs st1 ! b) = Some n"
    "children (objs st1 ! b) = (\<lambda>_. None)"
    "category (objs st1 ! b) = category (objs st ! n)"
    by (simp_all add: b1 objb_def) (simp add: b_def)
  from w objb impI [OF inherited] impI [OF plain] show ?thesis
    by (intro exI [of _ b] exI [of _ st1] conjI)
qed

lemma wf_tree_scenario: "wf_registry tree_scenario"
proof -
  have "0 < length sinks_scenario"
    by (simp add: sinks_scenario_def)
  then show ?thesis
    by (simp add: wf_registry_def tree_scenario_def wf_sinks_scenario)
qed

lemma plain_names:
  "''foo'' \<notin> set object_prototype_keys" "''bar'' \<notin> set object_prototype_keys"
  "''logtape'' \<notin> set object_prototype_keys" "''meta'' \<notin> set object_prototype_keys"
  "''toString'' \<in> set object_prototype_keys"
  by (simp_all add: object_prototype_keys_def)

theorem with_child_not_canonical_witness:
  "wf_registry tree_scenario \<and> 1 < length (objs tree_scenario) \<and> ''bar'' \<noteq> [] \<and>
   ''toString'' \<noteq> [] \<and> distinct (map fst [(''a'', JNum 1), (''b'', JNum 2)]) \<and>
   ''bar'' \<notin> set object_prototype_keys \<and> ''toString'' \<in> set object_prototype_keys \<and>
   (\<exists>b st1.
     with_props tree_scenario 1 [(''a'', JNum 1), (''b'', JNum 2)] = (b, st1) \<and> b = 3 \<and>
     getChild st1 b (Str ''toString'') None =
       Some (Inl (TypeError ''childRef.deref is not a function''), st1) \<and>
     (\<exists>c st2 x st3.
        getChild st1 b (Str ''bar'') None = Some (Inr c, st2) \<and>
        category (objs st2 ! c) = [''foo'', ''bar''] \<and>
        getLogger st2 (Arr [Str ''foo'', Str ''bar'']) = Some (Inr x, st3) \<and> x \<noteq> c))"
proof -
  let ?p = "[(''a'', JNum 1), (''b'', JNum 2)]"
  have h: "1 < length (objs tree_scenario)" "''bar'' \<noteq> []" "''toString'' \<noteq> []"
    "distinct (map fst ?p)"
    by (simp_all add: tree_scenario_def sinks_scenario_def)
  have cat: "category (objs tree_scenario ! 1) = [''foo'']" "length (objs tree_scenario) = 3"
    by (simp_all add: tree_scenario_def sinks_scenario_def blank_logger_def)
  from with_child_not_canonical [OF wf_tree_scenario h(1,2,4)] obtain b st1 where
    w: "with_props tree_scenario 1 ?p = (b, st1)" and b: "b = length (objs tree_scenario)"
    and pl: "''bar'' \<notin> set object_prototype_keys \<longrightarrow>
        (\<exists>c st2.
           getChild st1 b (Str ''bar'') None = Some (Inr c, st2) \<and>
           parent (objs st2 ! c) = Some b \<and>
           category (objs st2 ! c) = category (objs tree_scenario ! 1) @ [''bar''] \<and>
           (\<forall>(k, v) \<in> set ?p. \<exists>q. properties (objs st2 ! c) = Some q \<and> map_of q k = Some v) \<and>
           (\<forall>x st3.
              getLogger st2 (Arr (map Str (category (objs tree_scenario ! 1) @ [''bar''])))
                = Some (Inr x, st3)
              \<longrightarrow> x \<noteq> c \<and> x \<noteq> b) \<and>
           ((\<forall>m \<in> set (category (objs tree_scenario ! 1)). m \<notin> set object_prototype_keys) \<longrightarrow>
              (\<exists>x st3.
                 getLogger st2 (Arr (map Str (category (objs tree_scenario ! 1) @ [''bar''])))
                   = Some (Inr x, st3))))"
    by (elim exE conjE) (rule that)
  from with_child_not_canonical [OF wf_tree_scenario h(1,3,4)] obtain b' st1' where
    w': "with_props tree_scenario 1 ?p = (b', st1')"
    and inh: "''toString'' \<in> set object_prototype_keys \<longrightarrow>
        getChild st1' b' (Str ''toString'') None =
          Some (Inl (TypeError ''childRef.deref is not a function''), st1')"
    by (elim exE conjE) (rule that)
  from w w' have same: "b' = b" "st1' = st1"
    by simp_all
  from inh plain_names(5) have thrown: "getChild st1 b (Str ''toString'') None =
      Some (Inl (TypeError ''childRef.deref is not a function''), st1)"
    unfolding same by (rule mp)
  from pl [THEN mp, OF plain_names(2)] obtain c st2 where
    gc: "getChild st1 b (Str ''bar'') None = Some (Inr c, st2)"
    and catc: "category (objs st2 ! c) = category (objs tree_scenario ! 1) @ [''bar'']"
    and dist: "\<forall>x st3.
        getLogger st2 (Arr (map Str (category (objs tree_scenario ! 1) @ [''bar''])))
          = Some (Inr x, st3)
        \<longrightarrow> x \<noteq> c \<and> x \<noteq> b"
    and ret: "(\<forall>m \<in> set (category (objs tree_scenario ! 1)). m \<notin> set object_prototype_keys) \<longrightarrow>
        (\<exists>x st3.
           getLogger st2 (Arr (map Str (category (objs tree_scenario ! 1) @ [''bar''])))
             = Some (Inr x, st3))"
    by (elim exE conjE) (rule that)
  have "\<forall>m \<in> set (category (objs tree_scenario ! 1)). m \<notin> set object_prototype_keys"
    unfolding cat by (simp add: plain_names)
  with ret obtain x st3 where
    get: "getLogger st2 (Arr (map Str (category (objs tree_scenario ! 1) @ [''bar''])))
      = Some (Inr x, st3)"
    by blast
  with dist have "x \<noteq> c"
    by blast
  with gc catc get cat have
    "getChild st1 b (Str ''bar'') None = Some (Inr c, st2) \<and>
     category (objs st2 ! c) = [''foo'', ''bar''] \<and>
     getLogger st2 (Arr [Str ''foo'', Str ''bar'']) = Some (Inr x, st3) \<and> x \<noteq> c"
    by simp
  then have inner: "\<exists>c st2 x st3.
     getChild st1 b (Str ''bar'') None = Some (Inr c, st2) \<and>
     category (objs st2 ! c) = [''foo'', ''bar''] \<and>
     getLogger st2 (Arr [Str ''foo'', Str ''bar'']) = Some (Inr x, st3) \<and> x \<noteq> c"
    by (intro exI)
  from b cat have b3: "b = 3"
    by simp
  from w b3 thrown inner have "\<exists>b st1.
     with_props tree_scenario 1 ?p = (b, st1) \<and> b = 3 \<and>
     getChild st1 b (Str ''toString'') None =
       Some (Inl (TypeError ''childRef.deref is not a function''), st1) \<and>
     (\<exists>c st2 x st3.
        getChild st1 b (Str ''bar'') None = Some (Inr c, st2) \<and>
        category (objs st2 ! c) = [''foo'', ''bar''] \<and>
        getLogger st2 (Arr [Str ''foo'', Str ''bar'']) = Some (Inr x, st3) \<and> x \<noteq> c)"
    by (intro exI [of _ b], intro exI [of _ st1]) (intro conjI)
  with wf_tree_scenario h plain_names(2,5) show ?thesis
    by (intro conjI)
qed

subsection \<open>The rotating file sink\<close>

lemma map_of_filter_keys:
  "map_of (filter (\<lambda>(k, c). P k) fs) k = (if P k then map_of fs k else None)"
  by (induction fs) auto

lemma map_of_rename_file:
  "map_of (rename_file i j fs) k =
     (case map_of fs i of
        None \<Rightarrow> map_of fs k
      | Some c \<Rightarrow> if k = j then Some c else if k = i then None else map_of fs k)"
  by (simp add: rename_file_def map_of_filter_keys split: option.splits)

lemma map_of_rename_chain:
  "map_of (rename_chain m n fs) k =
     (if k = 0 then map_of fs 0
      else if 2 \<le> k \<and> k \<le> Suc n \<and> within_depth m k \<and> map_of fs (k - 1) \<noteq> None
        then map_of fs (k - 1)
      else if 1 \<le> k \<and> k \<le> n \<and> within_depth m (Suc k) then None
      else map_of fs k)"
proof (induction n arbitrary: fs)
  case 0
  then show ?case by auto
next
  case (Suc n)
  show ?case
  proof (cases "within_depth m (Suc (Suc n))")
    case True
    then have w: "within_depth m j" if "j \<le> Suc (Suc n)" for j
      using that by (cases m) (auto simp: within_depth_def)
    let ?fs = "rename_file (Suc n) (Suc (Suc n)) fs"
    have step: "rename_chain m (Suc n) fs = rename_chain m n ?fs"
      using True by (cases m) (simp_all add: within_depth_def)
    consider "k = 0" | "1 \<le> k" "k \<le> n" | "k = Suc n" | "k = Suc (Suc n)" | "k > Suc (Suc n)"
      by linarith
    then show ?thesis
    proof cases
      case 1
      then show ?thesis
        unfolding step Suc.IH by (simp add: map_of_rename_file split: option.splits)
    next
      case 2
      then have "k - 1 \<noteq> Suc n" "k - 1 \<noteq> Suc (Suc n)" "k \<noteq> Suc n" "k \<noteq> Suc (Suc n)"
        by linarith+
      with 2 show ?thesis
        unfolding step Suc.IH using w [of k] w [of "Suc k"]
        by (simp add: map_of_rename_file split: option.splits)
    next
      case 3
      then show ?thesis
        unfolding step Suc.IH using w [of k] w [of "Suc k"]
        by (cases n) (auto simp: map_of_rename_file split: option.splits)
    next
      case 4
      then show ?thesis
        unfolding step Suc.IH using w [of k]
        by (auto simp: map_of_rename_file split: option.splits)
    next
      case 5
      then show ?thesis
        unfolding step Suc.IH
        by (auto simp: map_of_rename_file split: option.splits)
    qed
  next
    case False
    then have nw: "\<not> within_depth m j" if "j \<ge> Suc (Suc n)" for j
      using that by (cases m) (auto simp: within_depth_def)
    have step: "rename_chain m (Suc n) fs = rename_chain m n fs"
      using False by (cases m) (simp_all add: within_depth_def)
    show ?thesis
      unfolding step Suc.IH using nw [of "Suc (Suc n)"] nw [of k] nw [of "Suc k"]
      by (cases "k = Suc (Suc n)"; cases "k = Suc n") auto
  qed
qed

lemma fold_max_ge: "(a::nat) \<le> fold max xs a"
proof (induction xs arbitrary: a)
  case Nil
  show ?case by simp
next
  case (Cons x xs)
  have "a \<le> max x a" by simp
  also have "\<dots> \<le> fold max xs (max x a)" by (rule Cons.IH)
  finally show ?case by simp
qed

lemma fold_max_mem: "k \<in> set xs \<Longrightarrow> (k::nat) \<le> fold max xs a"
proof (induction xs arbitrary: a)
  case Nil
  then show ?case by simp
next
  case (Cons x xs)
  show ?case
  proof (cases "k = x")
    case True
    have "x \<le> max x a" by simp
    also have "\<dots> \<le> fold max xs (max x a)" by (rule fold_max_ge)
    finally show ?thesis using True by simp
  next
    case False
    with Cons show ?thesis by simp
  qed
qed

lemma highest_index_ge: "map_of fs k = Some c \<Longrightarrow> k \<le> highest_index fs"
proof -
  assume "map_of fs k = Some c"
  then have "(k, c) \<in> set fs" by (rule map_of_SomeD)
  then have "k \<in> set (map fst fs)" by force
  then show ?thesis
    unfolding highest_index_def by (rule fold_max_mem)
qed

lemma map_of_append_file:
  "map_of (append_file chunk fs) k =
     (if k = 0 then Some ((case map_of fs 0 of None \<Rightarrow> [] | Some c \<Rightarrow> c) @ chunk)
      else map_of fs k)"
  by (simp add: append_file_def map_of_filter_keys)


lemma within_depth_mono: "within_depth m k \<Longrightarrow> j \<le> k \<Longrightarrow> within_depth m j"
  by (cases m) (auto simp: within_depth_def)

lemma map_of_rotate:
  "map_of (files (rotate s)) k =
     (if k = 0 then Some []
      else if k = 1 \<and> map_of (files s) 0 \<noteq> None then map_of (files s) 0
      else if 2 \<le> k \<and> within_depth (maxFiles s) k \<and> map_of (files s) (k - 1) \<noteq> None
        then map_of (files s) (k - 1)
      else if within_depth (maxFiles s) (Suc k) then None
      else map_of (files s) k)"
proof -
  let ?n = "highest_index (files s)"
  have beyond: "map_of (files s) j = None" if "j > ?n" for j
    using highest_index_ge [of "files s" j] that by (cases "map_of (files s) j") auto
  note chain = map_of_rename_chain [of "maxFiles s" ?n "files s"]
  consider "k = 0" | "k = 1" | "2 \<le> k" by linarith
  then show ?thesis
  proof cases
    case 1
    then show ?thesis by (simp add: rotate_def Let_def)
  next
    case 2
    have "map_of (rename_chain (maxFiles s) ?n (files s)) 1 =
        (if within_depth (maxFiles s) 2 then None else map_of (files s) 1)"
      using beyond [of 1] by (auto simp: chain numeral_2_eq_2)
    with 2 show ?thesis
      by (simp add: rotate_def Let_def map_of_filter_keys map_of_rename_file chain
          numeral_2_eq_2 split: option.splits)
  next
    case 3
    then have k: "k \<noteq> 0" "k \<noteq> 1" by linarith+
    have "map_of (rename_chain (maxFiles s) ?n (files s)) k =
        (if within_depth (maxFiles s) k \<and> map_of (files s) (k - 1) \<noteq> None
         then map_of (files s) (k - 1)
         else if within_depth (maxFiles s) (Suc k) then None
         else map_of (files s) k)"
    proof (cases "k \<le> ?n")
      case True
      with 3 k show ?thesis by (auto simp: chain)
    next
      case False
      then have "k > ?n" by linarith
      from beyond [OF this] False 3 k beyond [of "k - 1"] show ?thesis
        by (cases "k = Suc ?n") (auto simp: chain)
    qed
    with 3 k show ?thesis
      by (auto simp: rotate_def Let_def map_of_filter_keys map_of_rename_file
          split: option.splits)
  qed
qed
lemma length_test_line [simp]: "length (test_line abbr) = 66 + length abbr"
  by (simp add: test_line_def)

lemma length_test_formatter [simp]: "length (test_formatter r) = 69"
  by (simp add: test_formatter_def)

lemma test_formatter_fixture:
  "test_formatter (fixture ''debug'') = test_line ''DBG''"
  "test_formatter (fixture ''info'') = test_line ''INF''"
  "test_formatter (fixture ''warning'') = test_line ''WRN''"
  "test_formatter (fixture ''error'') = test_line ''ERR''"
  "test_formatter (fixture ''critical'') = test_line ''CRT''"
  by (simp_all add: test_formatter_def fixture_def)

lemma test_sink_fields [simp]:
  "formatter (test_writes ls) = test_formatter" "maxFileSize (test_writes ls) = 150"
  "maxFiles (test_writes ls) = None"
proof -
  have "formatter (fold (\<lambda>l s. write_record s (fixture l)) ls s) = formatter s \<and>
      maxFileSize (fold (\<lambda>l s. write_record s (fixture l)) ls s) = maxFileSize s \<and>
      maxFiles (fold (\<lambda>l s. write_record s (fixture l)) ls s) = maxFiles s" for s
    by (induction ls arbitrary: s) (simp_all add: write_record_def rotate_def Let_def)
  then show "formatter (test_writes ls) = test_formatter" "maxFileSize (test_writes ls) = 150"
    "maxFiles (test_writes ls) = None"
    by (simp_all add: test_writes_def test_sink_def)
qed

lemma test_writes_snoc:
  "test_writes (ls @ [l]) = write_record (test_writes ls) (fixture l)"
  by (simp add: test_writes_def)

lemma write_record_appends:
  assumes "\<not> (tracked_size s + length (formatter s r) > maxFileSize s \<and> tracked_size s \<noteq> 0)"
  shows "map_of (files (write_record s r)) k =
      (if k = 0 then Some ((case map_of (files s) 0 of None \<Rightarrow> [] | Some c \<Rightarrow> c) @ formatter s r)
       else map_of (files s) k)"
    and "tracked_size (write_record s r) = tracked_size s + length (formatter s r)"
  using assms by (auto simp: write_record_def Let_def map_of_append_file)

lemma test_writes_2:
  "map_of (files (test_writes [''debug'', ''info''])) 0
     = Some (test_line ''DBG'' @ test_line ''INF'')"
  "map_of (files (test_writes [''debug'', ''info''])) (Suc k) = None"
  "tracked_size (test_writes [''debug'', ''info'']) = 138"
proof -
  have 0: "map_of (files (test_writes [])) k = (if k = 0 then Some [] else None)"
    "tracked_size (test_writes []) = 0" for k
    by (simp_all add: test_writes_def test_sink_def)
  have 1: "map_of (files (test_writes [''debug''])) k
      = (if k = 0 then Some (test_line ''DBG'') else None)"
    "tracked_size (test_writes [''debug'']) = 69" for k
    using test_writes_snoc [of "[]" "''debug''"] 0
    by (simp_all add: write_record_appends test_formatter_fixture)
  have 2: "map_of (files (test_writes [''debug'', ''info''])) k
      = (if k = 0 then Some (test_line ''DBG'' @ test_line ''INF'') else None)"
    "tracked_size (test_writes [''debug'', ''info'']) = 138" for k
    using test_writes_snoc [of "[''debug'']" "''info''"] 1
    by (simp_all add: write_record_appends test_formatter_fixture)
  from 2 show "map_of (files (test_writes [''debug'', ''info''])) 0
     = Some (test_line ''DBG'' @ test_line ''INF'')"
    "map_of (files (test_writes [''debug'', ''info''])) (Suc k) = None"
    "tracked_size (test_writes [''debug'', ''info'']) = 138"
    by simp_all
qed


lemma write_record_rotation:
  assumes "tracked_size s + length (formatter s r) > maxFileSize s"
    and "tracked_size s \<noteq> 0"
  shows "map_of (files (write_record s r)) 0 = Some (formatter s r)"
    and "tracked_size (write_record s r) = length (formatter s r)"
    and "map_of (files s) 0 = Some c \<Longrightarrow> map_of (files (write_record s r)) 1 = Some c"
    and "1 \<le> k \<Longrightarrow> within_depth (maxFiles s) (Suc k) \<Longrightarrow> map_of (files s) k = Some c \<Longrightarrow>
      map_of (files (write_record s r)) (Suc k) = Some c"
    and "within_depth (maxFiles s) (Suc (Suc k)) \<Longrightarrow>
      map_of (files (write_record s r)) (Suc k) = map_of (files s) k"
    and "2 \<le> k \<Longrightarrow> \<not> within_depth (maxFiles s) k \<Longrightarrow>
      map_of (files (write_record s r)) k = map_of (files s) k"
proof -
  have m: "maxFiles (rotate s) = maxFiles s" "formatter (rotate s) = formatter s"
    "tracked_size (rotate s) = 0"
    by (simp_all add: rotate_def Let_def)
  from assms(1,2) have w: "write_record s r =
      (rotate s)\<lparr>files := append_file (formatter s r) (files (rotate s)),
                 tracked_size := tracked_size (rotate s) + length (formatter s r)\<rparr>"
    by (simp add: write_record_def Let_def)
  show "map_of (files (write_record s r)) 0 = Some (formatter s r)"
    by (simp add: w m map_of_append_file map_of_rotate)
  show "tracked_size (write_record s r) = length (formatter s r)"
    by (simp add: w m)
  show "map_of (files (write_record s r)) 1 = Some c" if "map_of (files s) 0 = Some c"
    using that by (simp add: w m map_of_append_file map_of_rotate)
  show "map_of (files (write_record s r)) (Suc k) = Some c"
    if "1 \<le> k" "within_depth (maxFiles s) (Suc k)" "map_of (files s) k = Some c"
    using that by (simp add: w m map_of_append_file map_of_rotate)
  show "map_of (files (write_record s r)) (Suc k) = map_of (files s) k"
    if "within_depth (maxFiles s) (Suc (Suc k))"
    using that within_depth_mono [OF that, of "Suc k"]
    by (cases k) (auto simp: w m map_of_append_file map_of_rotate)
  show "map_of (files (write_record s r)) k = map_of (files s) k"
    if "2 \<le> k" "\<not> within_depth (maxFiles s) k"
  proof -
    from that(2) have "\<not> within_depth (maxFiles s) (Suc k)"
      using within_depth_mono [of "maxFiles s" "Suc k" k] by auto
    with that show ?thesis
      by (simp add: w m map_of_append_file map_of_rotate)
  qed
qed
lemma rotation_scenario:
  "map_of (files (test_writes [''debug'', ''info'', ''warning''])) 0 = Some (test_line ''WRN'')"
  "map_of (files (test_writes [''debug'', ''info'', ''warning''])) 1
     = Some (test_line ''DBG'' @ test_line ''INF'')"
  "map_of (files (test_writes [''debug'', ''info'', ''warning'', ''error'', ''critical''])) 0
     = Some (test_line ''CRT'')"
  "map_of (files (test_writes [''debug'', ''info'', ''warning'', ''error'', ''critical''])) 1
     = Some (test_line ''WRN'' @ test_line ''ERR'')"
  "map_of (files (test_writes [''debug'', ''info'', ''warning'', ''error'', ''critical''])) 2
     = Some (test_line ''DBG'' @ test_line ''INF'')"
proof -
  let ?s2 = "test_writes [''debug'', ''info'']"
  let ?s3 = "test_writes [''debug'', ''info'', ''warning'']"
  let ?s4 = "test_writes [''debug'', ''info'', ''warning'', ''error'']"
  let ?s5 = "test_writes [''debug'', ''info'', ''warning'', ''error'', ''critical'']"
  have w3: "?s3 = write_record ?s2 (fixture ''warning'')"
    using test_writes_snoc [of "[''debug'', ''info'']" "''warning''"] by simp
  have w4: "?s4 = write_record ?s3 (fixture ''error'')"
    using test_writes_snoc [of "[''debug'', ''info'', ''warning'']" "''error''"] by simp
  have w5: "?s5 = write_record ?s4 (fixture ''critical'')"
    using test_writes_snoc [of "[''debug'', ''info'', ''warning'', ''error'']" "''critical''"]
    by simp
  have h2: "tracked_size ?s2 + length (formatter ?s2 (fixture ''warning'')) > maxFileSize ?s2"
    "tracked_size ?s2 \<noteq> 0"
    by (simp_all add: test_writes_2)
  have r3: "map_of (files ?s3) 0 = Some (test_line ''WRN'')"
    "map_of (files ?s3) 1 = Some (test_line ''DBG'' @ test_line ''INF'')"
    "tracked_size ?s3 = 69"
    using write_record_rotation(1,2) [OF h2]
      write_record_rotation(3) [OF h2, of "test_line ''DBG'' @ test_line ''INF''"]
    unfolding w3 by (simp_all add: test_writes_2 test_formatter_fixture)
  have r4: "map_of (files ?s4) 0 = Some (test_line ''WRN'' @ test_line ''ERR'')"
    "map_of (files ?s4) 1 = Some (test_line ''DBG'' @ test_line ''INF'')"
    "tracked_size ?s4 = 138"
    using write_record_appends [of ?s3 "fixture ''error''"] r3
    unfolding w4 [symmetric] by (simp_all add: test_formatter_fixture)
  have h4: "tracked_size ?s4 + length (formatter ?s4 (fixture ''critical'')) > maxFileSize ?s4"
    "tracked_size ?s4 \<noteq> 0"
    by (simp_all add: r4)
  have r5: "map_of (files ?s5) 0 = Some (test_line ''CRT'')"
    "map_of (files ?s5) 1 = Some (test_line ''WRN'' @ test_line ''ERR'')"
    "map_of (files ?s5) (Suc 1) = Some (test_line ''DBG'' @ test_line ''INF'')"
    using write_record_rotation(1) [OF h4]
      write_record_rotation(3) [OF h4, of "test_line ''WRN'' @ test_line ''ERR''"]
      write_record_rotation(5) [OF h4, of 1] r4
    unfolding w5 [symmetric] by (simp_all add: test_formatter_fixture within_depth_def)
  from r3 r5 show
    "map_of (files ?s3) 0 = Some (test_line ''WRN'')"
    "map_of (files ?s3) 1 = Some (test_line ''DBG'' @ test_line ''INF'')"
    "map_of (files ?s5) 0 = Some (test_line ''CRT'')"
    "map_of (files ?s5) 1 = Some (test_line ''WRN'' @ test_line ''ERR'')"
    "map_of (files ?s5) 2 = Some (test_line ''DBG'' @ test_line ''INF'')"
    by (simp_all add: numeral_2_eq_2)
qed

text \<open>
  Claim C7: a write whose chunk would push the non-empty current file over the threshold
  rotates before it writes, at every rotation depth.  The new \<open>P\<close> holds the triggering
  chunk and nothing else, and the current file becomes \<open>P.1\<close>.  Every rotated file
  \<open>P.k\<close> whose new index is within the depth moves to \<open>P.(k+1)\<close>, the highest first;
  below the depth the content of \<open>P.(k+1)\<close> is exactly what \<open>P.k\<close> was, and with
  unbounded depth that holds for every index.  The file at the depth is replaced by its
  predecessor, so the oldest content is discarded, and no file beyond the depth is
  touched.  In the scenario of the test, with the threshold 150, unbounded depth and
  lines of 69 bytes, the third write leaves its line alone in \<open>P\<close> and the two earlier
  lines in \<open>P.1\<close>; the fifth write moves \<open>P.1\<close> to \<open>P.2\<close>, the third and fourth lines
  to \<open>P.1\<close>, and starts \<open>P\<close> again.
\<close>

theorem write_record_rotates:
  assumes "tracked_size s + length (formatter s r) > maxFileSize s"
    and "tracked_size s \<noteq> 0"
  shows "map_of (files (write_record s r)) 0 = Some (formatter s r) \<and>
    tracked_size (write_record s r) = length (formatter s r) \<and>
    (\<forall>c. map_of (files s) 0 = Some c \<longrightarrow> map_of (files (write_record s r)) 1 = Some c) \<and>
    (\<forall>k c. 1 \<le> k \<and> within_depth (maxFiles s) (Suc k) \<and> map_of (files s) k = Some c \<longrightarrow>
       map_of (files (write_record s r)) (Suc k) = Some c) \<and>
    (\<forall>k. within_depth (maxFiles s) (Suc (Suc k)) \<longrightarrow>
       map_of (files (write_record s r)) (Suc k) = map_of (files s) k) \<and>
    (maxFiles s = None \<longrightarrow>
       (\<forall>k. map_of (files (write_record s r)) (Suc k) = map_of (files s) k)) \<and>
    (\<forall>k. 2 \<le> k \<and> \<not> within_depth (maxFiles s) k \<longrightarrow>
       map_of (files (write_record s r)) k = map_of (files s) k) \<and>
    map_of (files (test_writes [''debug'', ''info'', ''warning''])) 0 = Some (test_line ''WRN'') \<and>
    map_of (files (test_writes [''debug'', ''info'', ''warning''])) 1
      = Some (test_line ''DBG'' @ test_line ''INF'') \<and>
    map_of (files (test_writes [''debug'', ''info'', ''warning'', ''error'', ''critical''])) 0
      = Some (test_line ''CRT'') \<and>
    map_of (files (test_writes [''debug'', ''info'', ''warning'', ''error'', ''critical''])) 1
      = Some (test_line ''WRN'' @ test_line ''ERR'') \<and>
    map_of (files (test_writes [''debug'', ''info'', ''warning'', ''error'', ''critical''])) 2
      = Some (test_line ''DBG'' @ test_line ''INF'')"
proof -
  note rot = write_record_rotation [OF assms]
  have unbounded: "maxFiles s = None \<longrightarrow>
      (\<forall>k. map_of (files (write_record s r)) (Suc k) = map_of (files s) k)"
    using rot(5) by (simp add: within_depth_def)
  from rot(1,2) rot(3) rot(4) rot(5) unbounded rot(6) rotation_scenario show ?thesis
    by (intro conjI allI impI) (simp_all del: One_nat_def)
qed

theorem write_record_rotates_witness:
  "tracked_size (test_writes [''debug'', ''info''])
      + length (formatter (test_writes [''debug'', ''info'']) (fixture ''warning''))
     > maxFileSize (test_writes [''debug'', ''info'']) \<and>
   tracked_size (test_writes [''debug'', ''info'']) \<noteq> 0 \<and>
   maxFiles (test_writes [''debug'', ''info'']) = None \<and>
   map_of (files (test_writes [''debug'', ''info'', ''warning''])) 0 = Some (test_line ''WRN'') \<and>
   map_of (files (test_writes [''debug'', ''info'', ''warning''])) 1
     = Some (test_line ''DBG'' @ test_line ''INF'') \<and>
   map_of (files (test_writes [''debug'', ''info'', ''warning''])) 2 = None \<and>
   tracked_size bounded_sink + length (formatter bounded_sink (fixture ''debug''))
     > maxFileSize bounded_sink \<and>
   tracked_size bounded_sink \<noteq> 0 \<and>
   map_of (files bounded_sink) 0 = Some ''new'' \<and>
   map_of (files bounded_sink) 1 = Some ''old'' \<and>
   \<not> within_depth (maxFiles bounded_sink) 2 \<and>
   map_of (files (write_record bounded_sink (fixture ''debug''))) 0 = Some (test_line ''DBG'') \<and>
   map_of (files (write_record bounded_sink (fixture ''debug''))) 1 = Some ''new'' \<and>
   map_of (files (write_record bounded_sink (fixture ''debug''))) 2 = None"
proof -
  let ?s = "test_writes [''debug'', ''info'']"
  have h: "tracked_size ?s + length (formatter ?s (fixture ''warning'')) > maxFileSize ?s"
    "tracked_size ?s \<noteq> 0"
    by (simp_all add: test_writes_2)
  have none: "maxFiles ?s = None"
    by simp
  have w: "test_writes [''debug'', ''info'', ''warning''] = write_record ?s (fixture ''warning'')"
    using test_writes_snoc [of "[''debug'', ''info'']" "''warning''"] by simp
  note t = write_record_rotates [OF h]
  note t6 = t [THEN conjunct2, THEN conjunct2, THEN conjunct2, THEN conjunct2, THEN conjunct2,
      THEN conjunct1, THEN mp, OF none]
  from t6 [THEN spec, of 1] have s2: "map_of (files (write_record ?s (fixture ''warning''))) 2 = None"
    by (simp add: test_writes_2 numeral_2_eq_2)
  have a: "map_of (files (test_writes [''debug'', ''info'', ''warning''])) 0
      = Some (test_line ''WRN'')"
    "map_of (files (test_writes [''debug'', ''info'', ''warning''])) 1
      = Some (test_line ''DBG'' @ test_line ''INF'')"
    "map_of (files (test_writes [''debug'', ''info'', ''warning''])) 2 = None"
    using t [THEN conjunct1]
      t [THEN conjunct2, THEN conjunct2, THEN conjunct1, THEN spec, THEN mp,
        OF test_writes_2(1)] s2
    unfolding w by (simp_all add: test_formatter_fixture)
  have hb: "tracked_size bounded_sink + length (formatter bounded_sink (fixture ''debug''))
      > maxFileSize bounded_sink" "tracked_size bounded_sink \<noteq> 0"
    by (simp_all add: bounded_sink_def)
  have old: "map_of (files bounded_sink) 0 = Some ''new''"
    "map_of (files bounded_sink) 1 = Some ''old''" "map_of (files bounded_sink) 2 = None"
    by (simp_all add: bounded_sink_def)
  have depth: "\<not> within_depth (maxFiles bounded_sink) 2"
    by (simp add: bounded_sink_def within_depth_def)
  note u = write_record_rotates [OF hb]
  have b0: "map_of (files (write_record bounded_sink (fixture ''debug''))) 0
      = Some (test_line ''DBG'')"
    using u [THEN conjunct1] by (simp add: bounded_sink_def test_formatter_fixture)
  note b1 = u [THEN conjunct2, THEN conjunct2, THEN conjunct1, THEN spec, THEN mp, OF old(1)]
  have "2 \<le> (2 :: nat) \<and> \<not> within_depth (maxFiles bounded_sink) 2"
    using depth by simp
  note u7 = u [THEN conjunct2, THEN conjunct2, THEN conjunct2, THEN conjunct2, THEN conjunct2,
      THEN conjunct2, THEN conjunct1, THEN spec, THEN mp, OF this]
  with old(3) have b2: "map_of (files (write_record bounded_sink (fixture ''debug''))) 2 = None"
    by simp
  from h none a hb old(1,2) depth b0 b1 b2 show ?thesis
    by (intro conjI)
qed


subsection \<open>Emission\<close>

lemma props_reads_append [simp]:
  "props_reads i (xs @ ys) = props_reads i xs + props_reads i ys"
  by (induction i xs rule: props_reads.induct) simp_all

lemma msg_reads_append [simp]:
  "msg_reads i (xs @ ys) = msg_reads i xs + msg_reads i ys"
  by (induction i xs rule: msg_reads.induct) simp_all

lemma calls_of_reads_0 [simp]: "calls_of_reads v 0 = 0"
  by (simp add: calls_of_reads_def split: sum.splits)

lemma calls_of_reads_add:
  "calls_of_reads v (m + n) =
     calls_of_reads v m + (if isl v \<or> m = 0 then calls_of_reads v n else 0)"
  by (auto simp: calls_of_reads_def split: sum.splits)

lemma run_inv_refl [simp]: "run_inv h b r w r w"
  by (simp add: run_inv_def props_calls_def msg_calls_def props_after_def msg_after_def
      split: props_field.splits prop_arg.splits msg_field.splits option.splits)

lemma ev_ok_same:
  "same_record h r r1 \<Longrightarrow> n \<le> n1 \<Longrightarrow> ev_ok h b r1 n1 ev \<Longrightarrow> ev_ok h b r n ev"
  by (cases ev) (auto simp: same_record_def)

lemma run_inv_trans:
  assumes 1: "run_inv h b r w r1 w1" and 2: "run_inv h b r1 w1 r2 w2"
  shows "run_inv h b r w r2 w2"
proof -
  from 1 obtain evs1 where e1: "trace w1 = trace w @ evs1"
    "\<forall>ev \<in> set evs1. ev_ok h b r (next_id w) ev"
    "\<forall>c. cb_calls w1 c = cb_calls w c + props_calls h c r evs1 + msg_calls c r evs1"
    "props_after h r evs1 r1" "msg_after r evs1 r1"
    and s1: "same_record h r r1" "next_id w \<le> next_id w1" "now w1 = now w"
    unfolding run_inv_def by blast
  from 2 obtain evs2 where e2: "trace w2 = trace w1 @ evs2"
    "\<forall>ev \<in> set evs2. ev_ok h b r1 (next_id w1) ev"
    "\<forall>c. cb_calls w2 c = cb_calls w1 c + props_calls h c r1 evs2 + msg_calls c r1 evs2"
    "props_after h r1 evs2 r2" "msg_after r1 evs2 r2"
    and s2: "same_record h r1 r2" "next_id w1 \<le> next_id w2" "now w2 = now w1"
    unfolding run_inv_def by blast
  have id: "rec_id r1 = rec_id r" "properties_value h r1 = properties_value h r"
    "message_value r1 = message_value r"
    using s1(1) by (simp_all add: same_record_def)
  have "\<forall>ev \<in> set (evs1 @ evs2). ev_ok h b r (next_id w) ev"
    using e1(2) e2(2) ev_ok_same [OF s1(1,2)] by auto
  moreover have pc: "props_calls h c r (evs1 @ evs2) = props_calls h c r evs1 + props_calls h c r1 evs2"
    for c
    using e1(4) id(2)
    by (auto simp: props_calls_def props_after_def id(1) calls_of_reads_add
        split: props_field.splits prop_arg.splits if_splits)
  moreover have mc: "msg_calls c r (evs1 @ evs2) = msg_calls c r evs1 + msg_calls c r1 evs2"
    for c
    using e1(5) id(3)
    by (auto simp: msg_calls_def msg_after_def id(1) calls_of_reads_add
        split: msg_field.splits if_splits)
  moreover have "props_after h r (evs1 @ evs2) r2"
    using e1(4) e2(4) id(2)
    by (auto simp: props_after_def id(1) split: props_field.splits if_splits)
  moreover have "msg_after r (evs1 @ evs2) r2"
    using e1(5) e2(5) id(3)
    by (auto simp: msg_after_def id(1) split: msg_field.splits if_splits)
  moreover have "trace w2 = trace w @ (evs1 @ evs2)"
    using e1(1) e2(1) by simp
  moreover have "\<forall>c. cb_calls w2 c
      = cb_calls w c + props_calls h c r (evs1 @ evs2) + msg_calls c r (evs1 @ evs2)"
    using e1(3) e2(3) by (simp add: pc mc)
  ultimately show ?thesis
    unfolding run_inv_def
    using s1 s2 same_record_trans [OF s1(1) s2(1)] by (intro conjI exI [of _ "evs1 @ evs2"]) auto
qed

lemma run_inv_single:
  assumes "same_record h r r'" and "next_id w' = next_id w" and "now w' = now w"
    and "trace w' = trace w @ [ev]" and "ev_ok h b r (next_id w) ev"
    and "\<And>c. cb_calls w' c = cb_calls w c + props_calls h c r [ev] + msg_calls c r [ev]"
    and "props_after h r [ev] r'" and "msg_after r [ev] r'"
  shows "run_inv h b r w r' w'"
  unfolding run_inv_def using assms by (intro conjI exI [of _ "[ev]"]) simp_all

lemma read_properties_inv:
  assumes "read_properties h r w = (v, r', w')"
  shows "run_inv h b r w r' w'"
proof -
  from read_properties_value [OF assms] have v: "v = properties_value h r"
    and s: "same_record h r r'"
    by simp_all
  show ?thesis
  proof (cases "rec_props r")
    case (PropsData x)
    with assms have "r' = r" "w' = w\<lparr>trace := trace w @ [PropsRead (rec_id r) v]\<rparr>"
      by (auto simp: read_properties_def)
    with v PropsData show ?thesis
      by (intro run_inv_single [where ev = "PropsRead (rec_id r) v"])
        (simp_all add: props_calls_def msg_calls_def props_after_def msg_after_def
          split: msg_field.splits)
  next
    case (PropsGetter this m p)
    obtain v1 w1 where g: "getProperties h this r m p w = (v1, w1)"
      by (cases "getProperties h this r m p w")
    from assms PropsGetter g have vv: "v = v1"
      and r': "r' = (case v1 of Inl e \<Rightarrow> r | Inr x \<Rightarrow> set_props r (PropsData x))"
      and w': "w' = w1\<lparr>trace := trace w1 @ [PropsRead (rec_id r) v]\<rparr>"
      by (auto simp: read_properties_def split: sum.splits)
    from g have w1: "w1 = (case p of
        PropsCallback c x \<Rightarrow> w\<lparr>cb_calls := (cb_calls w)(c := Suc (cb_calls w c))\<rparr>
      | _ \<Rightarrow> w)"
      by (cases p) (auto simp: getProperties_def split: sum.splits)
    show ?thesis
      using s v vv PropsGetter
      by (intro run_inv_single [where ev = "PropsRead (rec_id r) v"])
        (auto simp: r' w' w1 props_calls_def msg_calls_def props_after_def msg_after_def
          calls_of_reads_def split: msg_field.splits prop_arg.splits sum.splits)
  qed
qed

lemma read_message_inv:
  assumes "read_message r w = (res, r', w')"
  shows "run_inv h b r w r' w'"
proof -
  from read_message_value [OF assms, of h] have res: "res = message_value r"
    and s: "same_record h r r'"
    by simp_all
  show ?thesis
  proof (cases "rec_msg r")
    case (MsgData m raw)
    with assms have "r' = r" "w' = w\<lparr>trace := trace w @ [MessageRead (rec_id r)]\<rparr>"
      by (auto simp: read_message_def)
    with MsgData show ?thesis
      by (intro run_inv_single [where ev = "MessageRead (rec_id r)"])
        (simp_all add: props_calls_def msg_calls_def props_after_def msg_after_def
          split: props_field.splits prop_arg.splits)
  next
    case (MsgGetter c call)
    from assms MsgGetter have w': "w' = w\<lparr>trace := trace w @ [MessageRead (rec_id r)],
                cb_calls := (cb_calls w)(c := Suc (cb_calls w c))\<rparr>"
      by (auto simp: read_message_def realizeMessage_def Let_def
          split: sum.splits option.splits)
    from assms MsgGetter res
    have r': "rec_msg r' = (case res of Inl e \<Rightarrow> rec_msg r | Inr (m, raw) \<Rightarrow> MsgData m raw)"
      "rec_props r' = rec_props r"
      by (auto simp: read_message_def realizeMessage_def Let_def message_value_def
          split: sum.splits option.splits)
    show ?thesis
      using s res MsgGetter r'
      by (intro run_inv_single [where ev = "MessageRead (rec_id r)"])
        (auto simp: w' props_calls_def msg_calls_def props_after_def msg_after_def
          calls_of_reads_def split: props_field.splits prop_arg.splits sum.splits)
  qed
qed

lemma run_run_inv:
  "run h p r w = (res, r', w') \<Longrightarrow> run_inv h b r w r' w'"
proof (induction p arbitrary: r w)
  case (Ret x)
  then show ?case by auto
next
  case (Throw x)
  then show ?case by auto
next
  case (ReadProps k)
  obtain v r1 w1 where rp: "read_properties h r w = (v, r1, w1)"
    by (cases "read_properties h r w")
  note i1 = read_properties_inv [OF rp, of b]
  show ?case
  proof (cases v)
    case (Inl e)
    with ReadProps.prems rp i1 show ?thesis
      by auto
  next
    case (Inr x)
    with ReadProps.prems rp have "run h (k x) r1 w1 = (res, r', w')"
      by simp
    from ReadProps.IH [OF rangeI this] i1 show ?thesis
      by (rule run_inv_trans [rotated])
  qed
next
  case (ReadMessage k)
  obtain mres r1 w1 where rm: "read_message r w = (mres, r1, w1)"
    by (cases "read_message r w")
  note i1 = read_message_inv [OF rm, of h b]
  show ?case
  proof (cases mres)
    case (Inl e)
    with ReadMessage.prems rm i1 show ?thesis
      by auto
  next
    case (Inr mr)
    obtain msg raw where mr: "mr = (msg, raw)" by (cases mr)
    from ReadMessage.prems rm Inr mr have "run h (k msg raw) r1 w1 = (res, r', w')"
      by simp
    from ReadMessage.IH [OF rangeI rangeI this] i1 show ?thesis
      by (rule run_inv_trans [rotated])
  qed
qed

lemma filter_loop_inv:
  "filter_loop h fs r w = (res, r', w') \<Longrightarrow> run_inv h b r w r' w'"
proof (induction fs arbitrary: r w)
  case Nil
  then show ?case by auto
next
  case (Cons f fs)
  obtain res1 r1 w1 where run1: "run h (f (header_of r)) r w = (res1, r1, w1)"
    by (cases "run h (f (header_of r)) r w")
  note i1 = run_run_inv [OF run1, of b]
  show ?case
  proof (cases res1)
    case (Inl e)
    with Cons.prems run1 i1 show ?thesis by auto
  next
    case (Inr a)
    show ?thesis
    proof (cases a)
      case False
      with Inr Cons.prems run1 i1 show ?thesis by auto
    next
      case True
      with Inr Cons.prems run1 have "filter_loop h fs r1 w1 = (res, r', w')"
        by simp
      from Cons.IH [OF this] i1 show ?thesis
        by (rule run_inv_trans [rotated])
    qed
  qed
qed

lemma filter_logger_inv:
  "filter_logger h this r w = (res, r', w') \<Longrightarrow> run_inv h b r w r' w'"
proof (induction h this r w arbitrary: res r' w' rule: filter_logger.induct)
  case (1 h this r w)
  obtain res1 r1 w1 where loop: "filter_loop h (filters (h ! this)) r w = (res1, r1, w1)"
    by (cases "filter_loop h (filters (h ! this)) r w")
  note i1 = filter_loop_inv [OF loop, of b]
  show ?case
  proof (cases "\<exists>p. res1 = Inr True \<and> length (filters (h ! this)) < 1 \<and> parent_of h this = Some p")
    case True
    then obtain p where p: "res1 = Inr True" "length (filters (h ! this)) < 1"
      "parent_of h this = Some p"
      by blast
    with "1.prems" loop have fl: "filter_logger h p r1 w1 = (res, r', w')"
      by (subst (asm) filter_logger.simps) simp
    have "run_inv h b r1 w1 r' w'"
      by (rule "1.IH" [OF loop [symmetric] p(1) refl _ p(2,3) fl]) simp
    with i1 show ?thesis
      by (rule run_inv_trans)
  next
    case False
    with "1.prems" loop have "r' = r1 \<and> w' = w1"
      by (subst (asm) filter_logger.simps) (auto split: sum.splits if_splits option.splits)
    with i1 show ?thesis by simp
  qed
qed

lemma log'_unfold:
  "log' h T this level rawMessage properties' b w =
     (case emit h T this (eager_record h this level rawMessage properties' w) b
             (w\<lparr>next_id := Suc (next_id w)\<rparr>) of
        (res, r', w') \<Rightarrow> (res, w'))"
  by (simp add: log'.simps eager_record_def)

lemma later_events_no_reads:
  assumes "\<forall>ev \<in> set evs. ev_ok h b r0 (Suc n) ev" and "rec_id r0 = n" and "i < n"
  shows "props_reads i evs = 0 \<and> msg_reads i evs = 0"
  using assms(1)
proof (induction evs)
  case Nil
  show ?case by simp
next
  case (Cons ev evs)
  then show ?case
    using assms(2,3) by (cases ev) auto
qed

lemma run_inv_other:
  assumes inv: "run_inv h b' r0 w0 r0' w2"
    and r0: "rec_id r0 = next_id w1" "\<And>c evs. props_calls h c r0 evs = 0"
      "\<And>c evs. msg_calls c r0 evs = 0"
    and w0: "trace w0 = trace w1" "cb_calls w0 = cb_calls w1" "next_id w0 = Suc (next_id w1)"
      "now w0 = now w1"
    and sub: "b \<subseteq> b'" and old: "rec_id r1 < next_id w1"
  shows "run_inv h b r1 w1 r1 w2"
proof -
  from inv obtain evs where e: "trace w2 = trace w0 @ evs"
    "\<forall>ev \<in> set evs. ev_ok h b' r0 (next_id w0) ev"
    "\<forall>c. cb_calls w2 c = cb_calls w0 c + props_calls h c r0 evs + msg_calls c r0 evs"
    and s: "next_id w0 \<le> next_id w2" "now w2 = now w0"
    unfolding run_inv_def by blast
  from later_events_no_reads [of evs h b' r0 "next_id w1" "rec_id r1"] e(2) r0(1) w0(3) old
  have no: "props_reads (rec_id r1) evs = 0" "msg_reads (rec_id r1) evs = 0"
    by simp_all
  have ok: "ev_ok h b r1 (next_id w1) ev" if "ev \<in> set evs" for ev
  proof -
    from e(2) that have "ev_ok h b' r0 (Suc (next_id w1)) ev"
      by (simp add: w0(3))
    with sub r0(1) show ?thesis
      by (cases ev) (auto simp: same_record_def)
  qed
  have calls: "props_calls h c r1 evs = 0" "msg_calls c r1 evs = 0" for c
    using no
    by (simp_all add: props_calls_def msg_calls_def
        split: props_field.splits prop_arg.splits msg_field.splits option.splits)
  have after: "props_after h r1 evs r1" "msg_after r1 evs r1"
    using no
    by (simp_all add: props_after_def msg_after_def
        split: props_field.splits msg_field.splits option.splits)
  show ?thesis
    unfolding run_inv_def
    using e(1,3) s w0 ok calls after r0(2,3)
    by (intro conjI exI [of _ evs]) simp_all
qed

lemma run_inv_sink_call:
  assumes "run h p r (w\<lparr>trace := trace w @ [SinkCall sink r]\<rparr>) = (res, r', w')"
    and "sink \<notin> b"
  shows "run_inv h b r w r' w'"
proof -
  have "run_inv h b r w r (w\<lparr>trace := trace w @ [SinkCall sink r]\<rparr>)"
    using assms(2)
    by (intro run_inv_single [where ev = "SinkCall sink r"])
      (simp_all add: props_calls_def msg_calls_def props_after_def msg_after_def
        split: props_field.splits prop_arg.splits msg_field.splits option.splits)
  then show ?thesis
    using run_run_inv [OF assms(1)] by (rule run_inv_trans)
qed

lemma run_inv_id:
  "run_inv h b r w r' w' \<Longrightarrow> rec_id r < next_id w \<Longrightarrow> rec_id r' < next_id w'"
  by (auto simp: run_inv_def same_record_def)

lemma emit_run_inv_aux:
  "(rec_id r < next_id w \<longrightarrow>
      (\<forall>res r' w'. emit h T this r b w = (res, r', w') \<longrightarrow> run_inv h b r w r' w'))"
  "(rec_id r < next_id w \<longrightarrow>
      (\<forall>res r' w'. emit_sinks h T ss r b w = (res, r', w') \<longrightarrow> run_inv h b r w r' w'))"
  "(\<forall>res w'. log' h T this l m p b w = (res, w') \<longrightarrow>
      (\<exists>r'. run_inv h b (eager_record h this l m p w) (w\<lparr>next_id := Suc (next_id w)\<rparr>) r' w'))"
proof (induction h T this r b w and h T ss r b w and h T this l m p b w
    rule: emit_emit_sinks_log'.induct)
  case (1 h T this r b w)
  show ?case
  proof (intro impI allI)
    fix res r' w'
    assume id: "rec_id r < next_id w" and em: "emit h T this r b w = (res, r', w')"
    obtain fres r1 w1 where f: "filter_logger h this r w = (fres, r1, w1)"
      by (cases "filter_logger h this r w")
    note i1 = filter_logger_inv [OF f, of b]
    show "run_inv h b r w r' w'"
    proof (cases "fres = Inr True")
      case True
      with em f have es: "emit_sinks h T (getSinks h this) r1 b w1 = (res, r', w')"
        by (simp add: emit.simps)
      have "rec_id r1 < next_id w1 \<longrightarrow>
        (\<forall>res r' w'. emit_sinks h T (getSinks h this) r1 b w1 = (res, r', w') \<longrightarrow>
            run_inv h b r1 w1 r' w')"
        by (rule "1.IH" [OF f [symmetric] True refl]) simp
      with es run_inv_id [OF i1 id] have "run_inv h b r1 w1 r' w'"
        by blast
      with i1 show ?thesis by (rule run_inv_trans)
    next
      case False
      with em f have "r' = r1 \<and> w' = w1"
        by (auto simp: emit.simps split: sum.splits if_splits)
      with i1 show ?thesis by simp
    qed
  qed
next
  case (2 h T r b w)
  show ?case by (simp add: emit_sinks.simps)
next
  case (3 h T sink rest r b w)
  show ?case
  proof (intro impI allI)
    fix res r' w'
    assume id: "rec_id r < next_id w"
      and es: "emit_sinks h T (sink # rest) r b w = (res, r', w')"
    show "run_inv h b r w r' w'"
    proof (cases "sink \<in> b")
      case True
      with es have "emit_sinks h T rest r b w = (res, r', w')"
        by (simp add: emit_sinks.simps)
      with "3.IH"(1) [OF True] id show ?thesis by blast
    next
      case False
      obtain sres r1 w1 where
        run1: "run h (T sink (header_of r)) r (w\<lparr>trace := trace w @ [SinkCall sink r]\<rparr>)
          = (sres, r1, w1)"
        by (cases "run h (T sink (header_of r)) r (w\<lparr>trace := trace w @ [SinkCall sink r]\<rparr>)")
      note i1 = run_inv_sink_call [OF run1 False]
      note id1 = run_inv_id [OF i1 id]
      show ?thesis
      proof (cases sres)
        case (Inr u)
        with es False run1 have rest: "emit_sinks h T rest r1 b w1 = (res, r', w')"
          by (simp add: emit_sinks.simps)
        from "3.IH"(4) [OF False run1 [symmetric] Inr refl] rest id1
        have "run_inv h b r1 w1 r' w'" by blast
        with i1 show ?thesis by (rule run_inv_trans)
      next
        case (Inl e)
        let ?p = "PropsObject
            [(''sink'', JSink sink), (''error'', JError e), (''record'', JRecord r1)]"
        let ?m = "''Failed to emit a log record to sink''"
        obtain lres w2 where
          lg: "log' h T metaLogger ''fatal'' ?m ?p (insert sink b) w1 = (lres, w2)"
          by (cases "log' h T metaLogger ''fatal'' ?m ?p (insert sink b) w1")
        from "3.IH"(2) [OF False run1 [symmetric] Inl refl] lg
        obtain r0' where
          "run_inv h (insert sink b) (eager_record h metaLogger ''fatal'' ?m ?p w1)
             (w1\<lparr>next_id := Suc (next_id w1)\<rparr>) r0' w2"
          by blast
        then have i2: "run_inv h b r1 w1 r1 w2"
          by (rule run_inv_other)
            (use id1 in \<open>auto simp: eager_record_def props_calls_def msg_calls_def\<close>)
        show ?thesis
        proof (cases lres)
          case (Inl e')
          with es False run1 \<open>sres = Inl e\<close> lg have "r' = r1 \<and> w' = w2"
            by (simp add: emit_sinks.simps)
          with i1 i2 show ?thesis by (auto intro: run_inv_trans)
        next
          case (Inr u)
          with es False run1 \<open>sres = Inl e\<close> lg
          have rest: "emit_sinks h T rest r1 b w2 = (res, r', w')"
            by (simp add: emit_sinks.simps)
          from "3.IH"(3) [OF False run1 [symmetric] \<open>sres = Inl e\<close> refl lg [symmetric] Inr]
            rest run_inv_id [OF i2 id1]
          have "run_inv h b r1 w2 r' w'" by blast
          with i1 i2 show ?thesis by (blast intro: run_inv_trans)
        qed
      qed
    qed
  qed
next
  case (4 h T this level rawMessage properties' b w)
  show ?case
  proof (intro allI impI)
    fix res w'
    assume lg: "log' h T this level rawMessage properties' b w = (res, w')"
    let ?r = "eager_record h this level rawMessage properties' w"
    obtain r' where "emit h T this ?r b (w\<lparr>next_id := Suc (next_id w)\<rparr>) = (res, r', w')"
      using lg by (auto simp: log'_unfold split: prod.splits)
    with "4.IH" show "\<exists>r'. run_inv h b ?r (w\<lparr>next_id := Suc (next_id w)\<rparr>) r' w'"
      by (auto simp: eager_record_def)
  qed
qed

lemma module_init_eq:
  "module_init = Some (Inr 2,
     \<lparr>objs =
        [(blank_logger None [])\<lparr>children := [''logtape'' \<mapsto> 1]\<rparr>,
         (blank_logger (Some 0) [''logtape''])\<lparr>children := [''meta'' \<mapsto> 2]\<rparr>,
         blank_logger (Some 1) [''logtape'', ''meta'']],
      rootLogger = Some 0\<rparr>)"
proof -
  have nf: "\<not> falsy metaLoggerCategory"
    and l: "getCategoryList metaLoggerCategory = [''logtape'', ''meta'']"
    by (simp_all add: metaLoggerCategory_def getCategoryList_def)
  have len: "category_length metaLoggerCategory = Some 2"
    by (simp add: metaLoggerCategory_def)
  have c: "(case metaLoggerCategory of Undefined \<Rightarrow> Arr [] | c \<Rightarrow> c) = metaLoggerCategory"
    by (simp add: metaLoggerCategory_def)
  show ?thesis
    unfolding module_init_def
    by (simp add: getLogger_unrooted empty_registry_def getLogger_rooted c len
        getChild_descend [OF nf l] step_child_def children_get_def plain_names
        new_LoggerImpl_eq blank_logger_def mergeProperties_def numeral_2_eq_2)
qed

lemma metaLogger_eq: "metaLogger = 2"
  by (simp add: metaLogger_def module_init_eq)

text \<open>
  The module's initialisation installs the meta logger, and the operations of the
  registry keep it: they append objects and add children, and change no category.
\<close>

lemma meta_installed_module_init:
  "module_init = Some (Inr a, st) \<Longrightarrow> a = metaLogger \<and> meta_installed (objs st)"
  by (auto simp: module_init_eq metaLogger_eq meta_installed_def blank_logger_def
      metaLoggerCategory_def getCategoryList_def)

lemma meta_installed_keeps:
  "keeps_children st st' \<Longrightarrow> meta_installed (objs st) \<Longrightarrow> meta_installed (objs st')"
  by (auto simp: keeps_children_def meta_installed_def)

lemma meta_installed_getLogger:
  assumes "wf_registry st" and "rootLogger st = Some root"
    and "getLogger st C = Some (Inr a, st')" and "meta_installed (objs st)"
  shows "meta_installed (objs st')"
  using getLogger_rooted_stable [OF assms(1-3)] assms(4) by (auto intro: meta_installed_keeps)

lemma meta_installed_with_props:
  "with_props st n p = (b, st') \<Longrightarrow> meta_installed (objs st) \<Longrightarrow> meta_installed (objs st')"
  by (auto simp: with_props_def new_LoggerImpl_eq meta_installed_def nth_append)

lemma failure_record_sel:
  "rec_id (failure_record h s e r w) = next_id w"
  "rec_category (failure_record h s e r w) = category (h ! metaLogger)"
  "rec_level (failure_record h s e r w) = ''fatal''"
  "rec_timestamp (failure_record h s e r w) = now w"
  "rec_msg (failure_record h s e r w) =
     MsgData [JStr failure_message] (RawString failure_message)"
  "rec_props (failure_record h s e r w) =
     PropsGetter metaLogger failure_message (failure_props s e r)"
  by (simp_all add: failure_record_def eager_record_def)

lemma failure_record_calls [simp]:
  "props_calls h c (failure_record h' s e r w) evs = 0"
  "msg_calls c (failure_record h' s e r w) evs = 0"
  by (simp_all add: props_calls_def msg_calls_def failure_record_sel failure_props_def)

lemma emit_sinks_catch:
  assumes "sink \<notin> b"
    and "run h (T sink (header_of r)) r (w\<lparr>trace := trace w @ [SinkCall sink r]\<rparr>)
      = (Inl e, r1, w1)"
  shows "emit_sinks h T (sink # rest) r b w =
     (case log' h T metaLogger ''fatal'' failure_message (failure_props sink e r1)
             (insert sink b) w1 of
        (Inl e', w2) \<Rightarrow> (Inl e', r1, w2)
      | (Inr u, w2) \<Rightarrow> emit_sinks h T rest r1 b w2)"
  using assms by (simp add: emit_sinks.simps failure_message_def failure_props_def)

lemma emit_sinks_pass:
  assumes "sink \<notin> b"
    and "run h (T sink (header_of r)) r (w\<lparr>trace := trace w @ [SinkCall sink r]\<rparr>)
      = (Inr u, r1, w1)"
  shows "emit_sinks h T (sink # rest) r b w = emit_sinks h T rest r1 b w1"
  using assms by (simp add: emit_sinks.simps)

lemma emit_sinks_skip:
  "sink \<in> b \<Longrightarrow> emit_sinks h T (sink # rest) r b w = emit_sinks h T rest r b w"
  by (simp add: emit_sinks.simps)

lemma log'_failure_unfold:
  "log' h T metaLogger ''fatal'' failure_message (failure_props s e r) b w =
     (case emit h T metaLogger (failure_record h s e r w) b (w\<lparr>next_id := Suc (next_id w)\<rparr>) of
        (res, r', w') \<Rightarrow> (res, w'))"
  by (simp add: log'_unfold failure_record_def)

text \<open>
  With filters for the meta logger that do not throw, the only exception that leaves
  \<^verbatim>\<open>emit\<close> is one of a filter consulted for the record itself.
\<close>

lemma emit_returns_aux:
  "meta_filter_safe h \<longrightarrow>
     fst (emit h T this r b w) = map_sum id (\<lambda>_. ()) (fst (filter_logger h this r w))"
  "meta_filter_safe h \<longrightarrow> fst (emit_sinks h T ss r b w) = Inr ()"
  "meta_filter_safe h \<longrightarrow>
     fst (log' h T this l m p b w) =
       map_sum id (\<lambda>_. ())
         (fst (filter_logger h this (eager_record h this l m p w)
                 (w\<lparr>next_id := Suc (next_id w)\<rparr>)))"
proof (induction h T this r b w and h T ss r b w and h T this l m p b w
    rule: emit_emit_sinks_log'.induct)
  case (1 h T this r b w)
  show ?case
  proof
    assume safe: "meta_filter_safe h"
    obtain fres r1 w1 where f: "filter_logger h this r w = (fres, r1, w1)"
      by (cases "filter_logger h this r w")
    show "fst (emit h T this r b w) = map_sum id (\<lambda>_. ()) (fst (filter_logger h this r w))"
    proof (cases fres)
      case (Inl e)
      with f show ?thesis by (simp add: emit.simps)
    next
      case (Inr a)
      show ?thesis
      proof (cases a)
        case True
        from f Inr have f': "filter_logger h this r w = (Inr a, r1, w1)"
          by simp
        have "meta_filter_safe h \<longrightarrow>
            fst (emit_sinks h T (getSinks h this) r1 b w1) = Inr ()"
          by (rule "1.IH" [OF f' [symmetric] refl refl]) (simp add: True)
        with safe f Inr True show ?thesis
          by (simp add: emit.simps)
      next
        case False
        with f Inr show ?thesis by (simp add: emit.simps)
      qed
    qed
  qed
next
  case (2 h T r b w)
  show ?case by (simp add: emit_sinks.simps)
next
  case (3 h T sink rest r b w)
  show ?case
  proof
    assume safe: "meta_filter_safe h"
    show "fst (emit_sinks h T (sink # rest) r b w) = Inr ()"
    proof (cases "sink \<in> b")
      case True
      with "3.IH"(1) [OF True] safe show ?thesis
        by (simp add: emit_sinks.simps)
    next
      case False
      obtain sres r1 w1 where
        run1: "run h (T sink (header_of r)) r (w\<lparr>trace := trace w @ [SinkCall sink r]\<rparr>)
          = (sres, r1, w1)"
        by (cases "run h (T sink (header_of r)) r (w\<lparr>trace := trace w @ [SinkCall sink r]\<rparr>)")
      show ?thesis
      proof (cases sres)
        case (Inr u)
        from "3.IH"(4) [OF False run1 [symmetric] Inr refl] safe False run1 Inr show ?thesis
          by (simp add: emit_sinks.simps)
      next
        case (Inl e)
        let ?p = "PropsObject
            [(''sink'', JSink sink), (''error'', JError e), (''record'', JRecord r1)]"
        let ?m = "''Failed to emit a log record to sink''"
        obtain lres w2 where
          lg: "log' h T metaLogger ''fatal'' ?m ?p (insert sink b) w1 = (lres, w2)"
          by (cases "log' h T metaLogger ''fatal'' ?m ?p (insert sink b) w1")
        from safe obtain a where
          "fst (filter_logger h metaLogger (eager_record h metaLogger ''fatal'' ?m ?p w1)
              (w1\<lparr>next_id := Suc (next_id w1)\<rparr>)) = Inr a"
          unfolding meta_filter_safe_def failure_record_def failure_props_def
            failure_message_def
          by blast
        with "3.IH"(2) [OF False run1 [symmetric] Inl refl] safe lg
        have lres: "lres = Inr ()"
          by simp
        from "3.IH"(3) [OF False run1 [symmetric] Inl refl lg [symmetric] lres] safe
        have "fst (emit_sinks h T rest r1 b w2) = Inr ()"
          by blast
        with False run1 Inl lg lres show ?thesis
          by (simp add: emit_sinks.simps)
      qed
    qed
  qed
next
  case (4 h T this level rawMessage properties' b w)
  then show ?case
    by (auto simp: log'.simps eager_record_def split: prod.splits)
qed

lemma emit_sinks_returns:
  assumes "meta_filter_safe h"
  obtains r' w' where "emit_sinks h T ss r b w = (Inr (), r', w')"
  using emit_returns_aux(2) [of h T ss r b w] assms
  by (cases "emit_sinks h T ss r b w") auto

lemma log'_failure_returns:
  assumes "meta_filter_safe h"
  obtains w' where
    "log' h T metaLogger ''fatal'' failure_message (failure_props s e r) b w = (Inr (), w')"
proof -
  from assms obtain a where
    "fst (filter_logger h metaLogger (failure_record h s e r w)
        (w\<lparr>next_id := Suc (next_id w)\<rparr>)) = Inr a"
    unfolding meta_filter_safe_def by blast
  with emit_returns_aux(3) [of h T metaLogger "''fatal''" failure_message
      "failure_props s e r" b w] assms
  have "fst (log' h T metaLogger ''fatal'' failure_message (failure_props s e r) b w) = Inr ()"
    by (simp add: failure_record_def)
  with that show ?thesis
    by (cases "log' h T metaLogger ''fatal'' failure_message (failure_props s e r) b w") auto
qed

lemma emit_sinks_append:
  "emit_sinks h T (xs @ ys) r b w =
     (case emit_sinks h T xs r b w of
        (Inl e, r', w') \<Rightarrow> (Inl e, r', w')
      | (Inr u, r', w') \<Rightarrow> emit_sinks h T ys r' b w')"
proof (induction xs arbitrary: r w)
  case Nil
  show ?case by (simp add: emit_sinks.simps)
next
  case (Cons s xs)
  show ?case
  proof (cases "s \<in> b")
    case True
    with Cons.IH show ?thesis
      by (simp add: emit_sinks_skip)
  next
    case False
    obtain sres r1 w1 where
      run1: "run h (T s (header_of r)) r (w\<lparr>trace := trace w @ [SinkCall s r]\<rparr>)
        = (sres, r1, w1)"
      by (cases "run h (T s (header_of r)) r (w\<lparr>trace := trace w @ [SinkCall s r]\<rparr>)")
    show ?thesis
    proof (cases sres)
      case (Inr u)
      with False run1 Cons.IH show ?thesis
        by (simp add: emit_sinks_pass)
    next
      case (Inl e)
      with False run1 have run1': "run h (T s (header_of r)) r
          (w\<lparr>trace := trace w @ [SinkCall s r]\<rparr>) = (Inl e, r1, w1)"
        by simp
      show ?thesis
        unfolding append_Cons
          emit_sinks_catch [where h = h and T = T and rest = "xs @ ys", OF False run1']
          emit_sinks_catch [where h = h and T = T and rest = xs, OF False run1']
        by (simp add: Cons.IH split: prod.splits sum.splits)
    qed
  qed
qed

lemma emit_sinks_inv:
  "rec_id r < next_id w \<Longrightarrow> emit_sinks h T ss r b w = (res, r', w') \<Longrightarrow> run_inv h b r w r' w'"
  using emit_run_inv_aux(2) [of r w h T ss b] by blast

lemma emit_inv:
  "rec_id r < next_id w \<Longrightarrow> emit h T this r b w = (res, r', w') \<Longrightarrow> run_inv h b r w r' w'"
  using emit_run_inv_aux(1) [of r w h T this b] by blast

lemma run_inv_trace:
  assumes "run_inv h b r w r' w'"
  obtains evs where "trace w' = trace w @ evs" "\<forall>s rr. SinkCall s rr \<in> set evs \<longrightarrow> s \<notin> b"
proof -
  from assms obtain evs where "trace w' = trace w @ evs"
    "\<forall>ev \<in> set evs. ev_ok h b r (next_id w) ev"
    unfolding run_inv_def by blast
  moreover from this(2) have "\<forall>s rr. SinkCall s rr \<in> set evs \<longrightarrow> s \<notin> b"
    by fastforce
  ultimately show ?thesis using that by blast
qed

lemma run_inv_same: "run_inv h b r w r' w' \<Longrightarrow> same_record h r r'"
  by (simp add: run_inv_def)

text \<open>
  The loop over the sinks reaches every sink of the list: the state of the loop in front
  of the sink.
\<close>

lemma emit_sinks_prefix:
  assumes "meta_filter_safe h" and "rec_id r < next_id w"
  obtains r1 w1 where "emit_sinks h T (pre @ rest) r b w = emit_sinks h T rest r1 b w1"
    "run_inv h b r w r1 w1"
proof -
  from assms(1) obtain r1 w1 where pre: "emit_sinks h T pre r b w = (Inr (), r1, w1)"
    by (rule emit_sinks_returns)
  then have "emit_sinks h T (pre @ rest) r b w = emit_sinks h T rest r1 b w1"
    by (simp add: emit_sinks_append)
  moreover from emit_sinks_inv [OF assms(2) pre] have "run_inv h b r w r1 w1" .
  ultimately show ?thesis by (rule that)
qed


lemma run_sink_trace:
  assumes "run h p r (w\<lparr>trace := trace w @ [SinkCall s r]\<rparr>) = (res, r', w')"
  obtains evs where "trace w' = trace w @ SinkCall s r # evs" "same_record h r r'"
    "next_id w \<le> next_id w'"
proof -
  from run_run_inv [OF assms, of "{}"] obtain evs where
    "trace w' = trace (w\<lparr>trace := trace w @ [SinkCall s r]\<rparr>) @ evs"
    and "same_record h r r'" "next_id w \<le> next_id w'"
    unfolding run_inv_def by auto
  then show ?thesis
    using that by simp
qed

lemma log'_failure_inv:
  assumes "log' h T metaLogger ''fatal'' failure_message (failure_props s e r) b w = (res, w')"
  obtains mid where "trace w' = trace w @ mid" "\<forall>s' rr. SinkCall s' rr \<in> set mid \<longrightarrow> s' \<notin> b"
    "next_id w \<le> next_id w'"
proof -
  from emit_run_inv_aux(3) [of h T metaLogger "''fatal''" failure_message
      "failure_props s e r" b w] assms
  obtain r' where inv: "run_inv h b (failure_record h s e r w)
      (w\<lparr>next_id := Suc (next_id w)\<rparr>) r' w'"
    unfolding failure_record_def by blast
  from inv obtain mid where
    "trace w' = trace (w\<lparr>next_id := Suc (next_id w)\<rparr>) @ mid"
    "\<forall>s' rr. SinkCall s' rr \<in> set mid \<longrightarrow> s' \<notin> b"
    by (rule run_inv_trace)
  moreover from inv have "next_id w \<le> next_id w'"
    by (simp add: run_inv_def)
  ultimately show ?thesis using that by simp
qed

text \<open>
  The loop at one sink of the list: the sink is called with the record, and when it
  throws, the failure is logged at the meta logger with the sink added to the bypass set,
  and the loop goes on.
\<close>

lemma emit_sinks_at:
  assumes safe: "meta_filter_safe h" and id: "rec_id r < next_id w"
    and s: "s \<notin> b"
    and es: "emit_sinks h T (pre @ s # rest) r b w = (res, r', w')"
    and tr: "trace w' = trace w @ evs"
  shows "\<exists>r1 w1 sres r2 w2 ev1.
     emit_sinks h T (pre @ s # rest) r b w = emit_sinks h T (s # rest) r1 b w1 \<and>
     same_record h r r1 \<and>
     run h (T s (header_of r1)) r1 (w1\<lparr>trace := trace w1 @ [SinkCall s r1]\<rparr>) = (sres, r2, w2) \<and>
     trace w2 = trace w @ ev1 \<and> SinkCall s r1 \<in> set ev1 \<and>
     (case sres of
        Inr u \<Rightarrow>
          emit_sinks h T (pre @ s # rest) r b w = emit_sinks h T rest r2 b w2 \<and>
          (\<exists>post. evs = ev1 @ post)
      | Inl e \<Rightarrow>
          (\<exists>w3 mid post.
             log' h T metaLogger ''fatal'' failure_message (failure_props s e r2)
               (insert s b) w2 = (Inr (), w3) \<and>
             trace w3 = trace w2 @ mid \<and> evs = ev1 @ mid @ post \<and>
             next_id w2 \<le> next_id w3 \<and>
             emit_sinks h T (pre @ s # rest) r b w = emit_sinks h T rest r2 b w3 \<and>
             (\<forall>s' rr. SinkCall s' rr \<in> set mid \<longrightarrow> s' \<noteq> s \<and> s' \<notin> b)))"
proof -
  from safe id obtain r1 w1 where
    eq: "emit_sinks h T (pre @ s # rest) r b w = emit_sinks h T (s # rest) r1 b w1"
    and inv1: "run_inv h b r w r1 w1"
    by (rule emit_sinks_prefix)
  obtain ev0 where ev0: "trace w1 = trace w @ ev0"
    "\<forall>s rr. SinkCall s rr \<in> set ev0 \<longrightarrow> s \<notin> b"
    by (rule run_inv_trace [OF inv1])
  note id1 = run_inv_id [OF inv1 id]
  obtain sres r2 w2 where
    run1: "run h (T s (header_of r1)) r1 (w1\<lparr>trace := trace w1 @ [SinkCall s r1]\<rparr>)
      = (sres, r2, w2)"
    by (cases "run h (T s (header_of r1)) r1 (w1\<lparr>trace := trace w1 @ [SinkCall s r1]\<rparr>)")
  obtain ev2 where
    ev2: "trace w2 = trace w1 @ SinkCall s r1 # ev2" and s2: "same_record h r1 r2"
    and n2: "next_id w1 \<le> next_id w2"
    by (rule run_sink_trace [OF run1])
  define ev1 where "ev1 = ev0 @ SinkCall s r1 # ev2"
  have tr2: "trace w2 = trace w @ ev1" and mem: "SinkCall s r1 \<in> set ev1"
    by (simp_all add: ev1_def ev0 ev2)
  have id2: "rec_id r2 < next_id w2"
    using id1 s2 n2 by (simp add: same_record_def)
  have tail: "case sres of
        Inr u \<Rightarrow>
          emit_sinks h T (pre @ s # rest) r b w = emit_sinks h T rest r2 b w2 \<and>
          (\<exists>post. evs = ev1 @ post)
      | Inl e \<Rightarrow>
          (\<exists>w3 mid post.
             log' h T metaLogger ''fatal'' failure_message (failure_props s e r2)
               (insert s b) w2 = (Inr (), w3) \<and>
             trace w3 = trace w2 @ mid \<and> evs = ev1 @ mid @ post \<and>
             next_id w2 \<le> next_id w3 \<and>
             emit_sinks h T (pre @ s # rest) r b w = emit_sinks h T rest r2 b w3 \<and>
             (\<forall>s' rr. SinkCall s' rr \<in> set mid \<longrightarrow> s' \<noteq> s \<and> s' \<notin> b))"
  proof (cases sres)
    case (Inr u)
    with run1 have "emit_sinks h T (s # rest) r1 b w1 = emit_sinks h T rest r2 b w2"
      using emit_sinks_pass [where h = h and T = T, OF s] by simp
    with eq have eq2: "emit_sinks h T (pre @ s # rest) r b w = emit_sinks h T rest r2 b w2"
      by simp
    with es have "emit_sinks h T rest r2 b w2 = (res, r', w')"
      by simp
    from emit_sinks_inv [OF id2 this] obtain post where
      "trace w' = trace w2 @ post"
      "\<forall>s rr. SinkCall s rr \<in> set post \<longrightarrow> s \<notin> b"
      by (rule run_inv_trace)
    with tr tr2 have "evs = ev1 @ post"
      by simp
    with eq2 Inr show ?thesis
      by auto
  next
    case (Inl e)
    with run1 have run1': "run h (T s (header_of r1)) r1
        (w1\<lparr>trace := trace w1 @ [SinkCall s r1]\<rparr>) = (Inl e, r2, w2)"
      by simp
    from safe obtain w3 where lg: "log' h T metaLogger ''fatal'' failure_message
        (failure_props s e r2) (insert s b) w2 = (Inr (), w3)"
      by (rule log'_failure_returns)
    obtain mid where
      mid: "trace w3 = trace w2 @ mid"
        "\<forall>s' rr. SinkCall s' rr \<in> set mid \<longrightarrow> s' \<notin> insert s b"
      and n3: "next_id w2 \<le> next_id w3"
      by (rule log'_failure_inv [OF lg])
    from emit_sinks_catch [where h = h and T = T and rest = rest, OF s run1'] lg
    have "emit_sinks h T (s # rest) r1 b w1 = emit_sinks h T rest r2 b w3"
      by simp
    with eq have eq3: "emit_sinks h T (pre @ s # rest) r b w = emit_sinks h T rest r2 b w3"
      by simp
    with es have rest: "emit_sinks h T rest r2 b w3 = (res, r', w')"
      by simp
    have "rec_id r2 < next_id w3"
      using id2 n3 by simp
    from emit_sinks_inv [OF this rest] obtain post where
      "trace w' = trace w3 @ post"
      "\<forall>s rr. SinkCall s rr \<in> set post \<longrightarrow> s \<notin> b"
      by (rule run_inv_trace)
    with tr tr2 mid(1) have "evs = ev1 @ mid @ post"
      by simp
    with lg mid n3 eq3 Inl show ?thesis
      by auto
  qed
  from inv1 have "same_record h r r1"
    by (rule run_inv_same)
  with eq run1 tr2 mem tail show ?thesis
    by blast
qed

lemma emit_sinks_calls:
  assumes safe: "meta_filter_safe h" and id: "rec_id r < next_id w"
    and es: "emit_sinks h T ss r b w = (res, r', w')" and tr: "trace w' = trace w @ evs"
    and s: "s \<in> set ss" "s \<notin> b"
  shows "\<exists>rr. SinkCall s rr \<in> set evs \<and> same_record h r rr"
proof -
  from s(1) obtain pre rest where ss: "ss = pre @ s # rest"
    by (auto dest: split_list)
  from emit_sinks_at [OF safe id s(2) es [unfolded ss] tr]
  obtain r1 w1 sres r2 w2 ev1 where
    "emit_sinks h T (pre @ s # rest) r b w = emit_sinks h T (s # rest) r1 b w1"
    and r1: "same_record h r r1"
    and "run h (T s (header_of r1)) r1 (w1\<lparr>trace := trace w1 @ [SinkCall s r1]\<rparr>)
      = (sres, r2, w2)"
    and "trace w2 = trace w @ ev1" and mem: "SinkCall s r1 \<in> set ev1"
    and tail: "case sres of
        Inr u \<Rightarrow>
          emit_sinks h T (pre @ s # rest) r b w = emit_sinks h T rest r2 b w2 \<and>
          (\<exists>post. evs = ev1 @ post)
      | Inl e \<Rightarrow>
          (\<exists>w3 mid post.
             log' h T metaLogger ''fatal'' failure_message (failure_props s e r2)
               (insert s b) w2 = (Inr (), w3) \<and>
             trace w3 = trace w2 @ mid \<and> evs = ev1 @ mid @ post \<and>
             next_id w2 \<le> next_id w3 \<and>
             emit_sinks h T (pre @ s # rest) r b w = emit_sinks h T rest r2 b w3 \<and>
             (\<forall>s' rr. SinkCall s' rr \<in> set mid \<longrightarrow> s' \<noteq> s \<and> s' \<notin> b))"
    by (elim exE conjE) (rule that)
  have "\<exists>rest'. evs = ev1 @ rest'"
  proof (cases sres)
    case (Inl e)
    with tail obtain mid post where "evs = ev1 @ mid @ post"
      by auto
    then show ?thesis by blast
  next
    case (Inr u)
    with tail show ?thesis by simp
  qed
  with mem have "SinkCall s r1 \<in> set evs"
    by auto
  with r1 show ?thesis
    by blast
qed


declare ancestors.simps [simp del]

lemma propTransform_no_transformers:
  "\<forall>a \<in> set (ancestors h this). propTransformers (h ! a) = [] \<Longrightarrow>
   propTransform h this rawRecord = Inr (raw_properties rawRecord)"
proof (induction h this rawRecord rule: propTransform.induct)
  case (1 h this rawRecord)
  from "1.prems" have own: "propTransformers (h ! this) = []"
    by (subst (asm) ancestors.simps) simp
  show ?case
  proof (cases "parent_of h this")
    case None
    with own show ?thesis
      by (subst propTransform.simps) simp
  next
    case (Some p)
    from "1.prems" Some have "\<forall>a \<in> set (ancestors h p). propTransformers (h ! a) = []"
      by (subst (asm) ancestors.simps) simp
    with "1.IH" [OF _ Some] own
    have "propTransform h p rawRecord = Inr (raw_properties rawRecord)"
      by simp
    with own Some show ?thesis
      by (subst propTransform.simps) (simp split: option.splits)
  qed
qed

lemma failure_record_facts:
  "rec_category (failure_record h s e r w) = category (h ! metaLogger)"
  "rec_level (failure_record h s e r w) = ''fatal''"
  "message_value (failure_record h s e r w) =
     Inr ([JStr ''Failed to emit a log record to sink''],
          RawString ''Failed to emit a log record to sink'')"
  "meta_installed h \<Longrightarrow> rec_category (failure_record h s e r w) = [''logtape'', ''meta'']"
  "properties (h ! metaLogger) = None \<Longrightarrow>
   \<forall>a \<in> set (ancestors h metaLogger). propTransformers (h ! a) = [] \<Longrightarrow>
   properties_value h (failure_record h s e r w) =
     Inr (Some [(''sink'', JSink s), (''error'', JError e), (''record'', JRecord r)])"
  by (simp_all add: failure_record_sel message_value_def failure_message_def
      meta_installed_def metaLoggerCategory_def getCategoryList_def properties_value_def
      failure_props_def propTransform_no_transformers raw_record_def mergeProperties_def)

lemma log'_failure_delivers:
  assumes safe: "meta_filter_safe h"
    and lg: "log' h T metaLogger ''fatal'' failure_message (failure_props s e r) b' w
      = (Inr (), w')"
    and tr: "trace w' = trace w @ mid"
    and acc: "fst (filter_logger h metaLogger (failure_record h s e r w)
        (w\<lparr>next_id := Suc (next_id w)\<rparr>)) = Inr True"
    and s': "s' \<in> set (getSinks h metaLogger)" "s' \<notin> b'"
  shows "\<exists>mr. SinkCall s' mr \<in> set mid \<and> same_record h (failure_record h s e r w) mr"
proof -
  let ?mr = "failure_record h s e r w" and ?w = "w\<lparr>next_id := Suc (next_id w)\<rparr>"
  from lg obtain r'' where em: "emit h T metaLogger ?mr b' ?w = (Inr (), r'', w')"
    by (auto simp: log'_failure_unfold split: prod.splits)
  from acc obtain mr1 wf where f: "filter_logger h metaLogger ?mr ?w = (Inr True, mr1, wf)"
    by (cases "filter_logger h metaLogger ?mr ?w") auto
  with em have es: "emit_sinks h T (getSinks h metaLogger) mr1 b' wf = (Inr (), r'', w')"
    by (simp add: emit.simps)
  note inv = filter_logger_inv [OF f, of b']
  have id: "rec_id ?mr < next_id ?w"
    by (simp add: failure_record_sel)
  note id1 = run_inv_id [OF inv id]
  from inv obtain fev where fev: "trace wf = trace ?w @ fev"
    "\<forall>s rr. SinkCall s rr \<in> set fev \<longrightarrow> s \<notin> b'"
    by (rule run_inv_trace)
  from emit_sinks_inv [OF id1 es] obtain sev where sev: "trace w' = trace wf @ sev"
    "\<forall>s rr. SinkCall s rr \<in> set sev \<longrightarrow> s \<notin> b'"
    by (rule run_inv_trace)
  from emit_sinks_calls [OF safe id1 es sev(1) s'] obtain mr where
    mr: "SinkCall s' mr \<in> set sev" "same_record h mr1 mr"
    by blast
  from tr fev(1) sev(1) have "mid = fev @ sev"
    by simp
  with mr(1) have "SinkCall s' mr \<in> set mid"
    by simp
  moreover from run_inv_same [OF inv] mr(2) have "same_record h ?mr mr"
    by (rule same_record_trans)
  ultimately show ?thesis
    by blast
qed

text \<open>
  Claim C1, as it holds.  Let the filters accept the record, so that \<^verbatim>\<open>emit\<close> calls the
  sinks, and let the filters consulted for the meta logger not throw on the records that
  \<^verbatim>\<open>emit\<close> logs there.  Then \<^verbatim>\<open>emit\<close> returns normally whatever the sinks do, it
  calls no sink of the bypass set, and it calls every other sink of the logger with the
  record.  At every sink \<open>s\<close> of the list that is not bypassed, the loop calls \<open>s\<close>; when
  \<open>s\<close> throws \<open>e\<close>, the loop calls \<^verbatim>\<open>_log\<close> on the meta logger with the level
  \<^verbatim>\<open>fatal\<close>, the fixed message, the properties \<^verbatim>\<open>sink\<close>, \<^verbatim>\<open>error\<close> and \<^verbatim>\<open>record\<close>
  and the bypass set extended by \<open>s\<close>; that call emits the record of the failure at
  the meta logger and returns, its events are part of the events of \<^verbatim>\<open>emit\<close>, none
  of them is a call of \<open>s\<close> or of a sink bypassed before, and
  when the filters accept the record of the failure every other sink of the meta logger
  is called with it; then the loop goes on with the next sink.  The record of the failure
  has the category of the meta logger, \<^verbatim>\<open>["logtape", "meta"]\<close>, the level \<^verbatim>\<open>fatal\<close>
  and the fixed message, and its properties are the failing sink, the error and the
  record (when the meta logger has neither bound properties nor transformers in reach).
  The recursion through the meta logger ends: \<^verbatim>\<open>emit\<close> is a total function, every
  nested call has one more sink of the meta logger to bypass.
\<close>

theorem emit_contains_sink_failure:
  assumes "meta_filter_safe h" and "filter_logger h this r w = (Inr True, r0, w0)"
    and "rec_id r < next_id w"
  shows "\<exists>r' w' evs.
     emit h T this r b w = (Inr (), r', w') \<and> trace w' = trace w @ evs \<and>
     (\<forall>s rr. SinkCall s rr \<in> set evs \<longrightarrow> s \<notin> b) \<and>
     (\<forall>s \<in> set (getSinks h this). s \<notin> b \<longrightarrow>
        (\<exists>rr. SinkCall s rr \<in> set evs \<and> same_record h r rr)) \<and>
     (\<forall>pre s rest. getSinks h this = pre @ s # rest \<and> s \<notin> b \<longrightarrow>
        (\<exists>r1 w1 res r2 w2 ev1.
           emit h T this r b w = emit_sinks h T (s # rest) r1 b w1 \<and> same_record h r r1 \<and>
           run h (T s (header_of r1)) r1 (w1\<lparr>trace := trace w1 @ [SinkCall s r1]\<rparr>)
             = (res, r2, w2) \<and>
           trace w2 = trace w @ ev1 \<and> SinkCall s r1 \<in> set ev1 \<and>
           (case res of
              Inr u \<Rightarrow>
                emit h T this r b w = emit_sinks h T rest r2 b w2 \<and> (\<exists>post. evs = ev1 @ post)
            | Inl e \<Rightarrow>
                (\<exists>w3 mid post.
                   log' h T metaLogger ''fatal'' ''Failed to emit a log record to sink''
                     (PropsObject
                        [(''sink'', JSink s), (''error'', JError e), (''record'', JRecord r2)])
                     (insert s b) w2 = (Inr (), w3) \<and>
                   (\<exists>mr'. emit h T metaLogger (failure_record h s e r2 w2) (insert s b)
                            (w2\<lparr>next_id := Suc (next_id w2)\<rparr>) = (Inr (), mr', w3)) \<and>
                   trace w3 = trace w2 @ mid \<and> evs = ev1 @ mid @ post \<and>
                   emit h T this r b w = emit_sinks h T rest r2 b w3 \<and>
                   (\<forall>s' rr. SinkCall s' rr \<in> set mid \<longrightarrow> s' \<noteq> s \<and> s' \<notin> b) \<and>
                   (fst (filter_logger h metaLogger (failure_record h s e r2 w2)
                           (w2\<lparr>next_id := Suc (next_id w2)\<rparr>)) = Inr True \<longrightarrow>
                      (\<forall>s' \<in> set (getSinks h metaLogger). s' \<noteq> s \<and> s' \<notin> b \<longrightarrow>
                         (\<exists>mr. SinkCall s' mr \<in> set mid \<and>
                               same_record h (failure_record h s e r2 w2) mr))))))) \<and>
     (\<forall>s e rr v.
        rec_category (failure_record h s e rr v) = category (h ! metaLogger) \<and>
        rec_level (failure_record h s e rr v) = ''fatal'' \<and>
        message_value (failure_record h s e rr v) =
          Inr ([JStr ''Failed to emit a log record to sink''],
               RawString ''Failed to emit a log record to sink'') \<and>
        (meta_installed h \<longrightarrow>
           rec_category (failure_record h s e rr v) = [''logtape'', ''meta'']) \<and>
        (properties (h ! metaLogger) = None \<and>
         (\<forall>a \<in> set (ancestors h metaLogger). propTransformers (h ! a) = []) \<longrightarrow>
           properties_value h (failure_record h s e rr v) =
             Inr (Some [(''sink'', JSink s), (''error'', JError e), (''record'', JRecord rr)])))"
proof -
  note safe = assms(1) and f = assms(2) and id = assms(3)
  have em: "emit h T this r b w = emit_sinks h T (getSinks h this) r0 b w0"
    using f by (simp add: emit.simps)
  note inv0 = filter_logger_inv [OF f, of b]
  note id0 = run_inv_id [OF inv0 id]
  note s0 = run_inv_same [OF inv0]
  from safe obtain r' w' where es: "emit_sinks h T (getSinks h this) r0 b w0 = (Inr (), r', w')"
    by (rule emit_sinks_returns)
  from inv0 obtain fev where fev: "trace w0 = trace w @ fev"
    "\<forall>s rr. SinkCall s rr \<in> set fev \<longrightarrow> s \<notin> b"
    by (rule run_inv_trace)
  from emit_sinks_inv [OF id0 es] obtain sev where sev: "trace w' = trace w0 @ sev"
    "\<forall>s rr. SinkCall s rr \<in> set sev \<longrightarrow> s \<notin> b"
    by (rule run_inv_trace)
  define evs where "evs = fev @ sev"
  have tr: "trace w' = trace w @ evs"
    by (simp add: evs_def fev sev)
  have c1: "emit h T this r b w = (Inr (), r', w')"
    using em es by simp
  have c3: "\<forall>s rr. SinkCall s rr \<in> set evs \<longrightarrow> s \<notin> b"
    using fev(2) sev(2) by (auto simp: evs_def)
  have c4: "\<forall>s \<in> set (getSinks h this). s \<notin> b \<longrightarrow>
        (\<exists>rr. SinkCall s rr \<in> set evs \<and> same_record h r rr)"
  proof (intro ballI impI)
    fix s assume "s \<in> set (getSinks h this)" "s \<notin> b"
    from emit_sinks_calls [OF safe id0 es sev(1) this] obtain rr where
      "SinkCall s rr \<in> set sev" "same_record h r0 rr"
      by blast
    with s0 show "\<exists>rr. SinkCall s rr \<in> set evs \<and> same_record h r rr"
      by (auto simp: evs_def intro: same_record_trans)
  qed
  have c5: "\<exists>r1 w1 res r2 w2 ev1.
           emit h T this r b w = emit_sinks h T (s # rest) r1 b w1 \<and> same_record h r r1 \<and>
           run h (T s (header_of r1)) r1 (w1\<lparr>trace := trace w1 @ [SinkCall s r1]\<rparr>)
             = (res, r2, w2) \<and>
           trace w2 = trace w @ ev1 \<and> SinkCall s r1 \<in> set ev1 \<and>
           (case res of
              Inr u \<Rightarrow>
                emit h T this r b w = emit_sinks h T rest r2 b w2 \<and> (\<exists>post. evs = ev1 @ post)
            | Inl e \<Rightarrow>
                (\<exists>w3 mid post.
                   log' h T metaLogger ''fatal'' ''Failed to emit a log record to sink''
                     (PropsObject
                        [(''sink'', JSink s), (''error'', JError e), (''record'', JRecord r2)])
                     (insert s b) w2 = (Inr (), w3) \<and>
                   (\<exists>mr'. emit h T metaLogger (failure_record h s e r2 w2) (insert s b)
                            (w2\<lparr>next_id := Suc (next_id w2)\<rparr>) = (Inr (), mr', w3)) \<and>
                   trace w3 = trace w2 @ mid \<and> evs = ev1 @ mid @ post \<and>
                   emit h T this r b w = emit_sinks h T rest r2 b w3 \<and>
                   (\<forall>s' rr. SinkCall s' rr \<in> set mid \<longrightarrow> s' \<noteq> s \<and> s' \<notin> b) \<and>
                   (fst (filter_logger h metaLogger (failure_record h s e r2 w2)
                           (w2\<lparr>next_id := Suc (next_id w2)\<rparr>)) = Inr True \<longrightarrow>
                      (\<forall>s' \<in> set (getSinks h metaLogger). s' \<noteq> s \<and> s' \<notin> b \<longrightarrow>
                         (\<exists>mr. SinkCall s' mr \<in> set mid \<and>
                               same_record h (failure_record h s e r2 w2) mr)))))"
    if sinks: "getSinks h this = pre @ s # rest" and sb: "s \<notin> b" for pre s rest
  proof -
    from emit_sinks_at [OF safe id0 sb es [unfolded sinks] sev(1)]
    obtain r1 w1 sres r2 w2 ev1 where
      eq: "emit_sinks h T (pre @ s # rest) r0 b w0 = emit_sinks h T (s # rest) r1 b w1"
      and s1: "same_record h r0 r1"
      and run1: "run h (T s (header_of r1)) r1 (w1\<lparr>trace := trace w1 @ [SinkCall s r1]\<rparr>)
        = (sres, r2, w2)"
      and tr2: "trace w2 = trace w0 @ ev1" and mem: "SinkCall s r1 \<in> set ev1"
      and tail: "case sres of
        Inr u \<Rightarrow>
          emit_sinks h T (pre @ s # rest) r0 b w0 = emit_sinks h T rest r2 b w2 \<and>
          (\<exists>post. sev = ev1 @ post)
      | Inl e \<Rightarrow>
          (\<exists>w3 mid post.
             log' h T metaLogger ''fatal'' failure_message (failure_props s e r2)
               (insert s b) w2 = (Inr (), w3) \<and>
             trace w3 = trace w2 @ mid \<and> sev = ev1 @ mid @ post \<and>
             next_id w2 \<le> next_id w3 \<and>
             emit_sinks h T (pre @ s # rest) r0 b w0 = emit_sinks h T rest r2 b w3 \<and>
             (\<forall>s' rr. SinkCall s' rr \<in> set mid \<longrightarrow> s' \<noteq> s \<and> s' \<notin> b))"
      by (elim exE conjE) (rule that)
    have em1: "emit h T this r b w = emit_sinks h T (s # rest) r1 b w1"
      using em eq by (simp add: sinks)
    have s1': "same_record h r r1"
      using s0 s1 by (rule same_record_trans)
    have tr2': "trace w2 = trace w @ (fev @ ev1)" and mem': "SinkCall s r1 \<in> set (fev @ ev1)"
      using tr2 fev(1) mem by simp_all
    have tail': "case sres of
              Inr u \<Rightarrow>
                emit h T this r b w = emit_sinks h T rest r2 b w2 \<and>
                (\<exists>post. evs = (fev @ ev1) @ post)
            | Inl e \<Rightarrow>
                (\<exists>w3 mid post.
                   log' h T metaLogger ''fatal'' ''Failed to emit a log record to sink''
                     (PropsObject
                        [(''sink'', JSink s), (''error'', JError e), (''record'', JRecord r2)])
                     (insert s b) w2 = (Inr (), w3) \<and>
                   (\<exists>mr'. emit h T metaLogger (failure_record h s e r2 w2) (insert s b)
                            (w2\<lparr>next_id := Suc (next_id w2)\<rparr>) = (Inr (), mr', w3)) \<and>
                   trace w3 = trace w2 @ mid \<and> evs = (fev @ ev1) @ mid @ post \<and>
                   emit h T this r b w = emit_sinks h T rest r2 b w3 \<and>
                   (\<forall>s' rr. SinkCall s' rr \<in> set mid \<longrightarrow> s' \<noteq> s \<and> s' \<notin> b) \<and>
                   (fst (filter_logger h metaLogger (failure_record h s e r2 w2)
                           (w2\<lparr>next_id := Suc (next_id w2)\<rparr>)) = Inr True \<longrightarrow>
                      (\<forall>s' \<in> set (getSinks h metaLogger). s' \<noteq> s \<and> s' \<notin> b \<longrightarrow>
                         (\<exists>mr. SinkCall s' mr \<in> set mid \<and>
                               same_record h (failure_record h s e r2 w2) mr))))"
    proof (cases sres)
      case (Inr u)
      with tail em sinks show ?thesis
        by (auto simp: evs_def)
    next
      case (Inl e)
      with tail obtain w3 mid post where
        lg: "log' h T metaLogger ''fatal'' failure_message (failure_props s e r2)
               (insert s b) w2 = (Inr (), w3)"
        and mid: "trace w3 = trace w2 @ mid" "sev = ev1 @ mid @ post"
        and eq3: "emit_sinks h T (pre @ s # rest) r0 b w0 = emit_sinks h T rest r2 b w3"
        and by_: "\<forall>s' rr. SinkCall s' rr \<in> set mid \<longrightarrow> s' \<noteq> s \<and> s' \<notin> b"
        by auto
      have deliver: "\<exists>mr. SinkCall s' mr \<in> set mid \<and>
          same_record h (failure_record h s e r2 w2) mr"
        if "fst (filter_logger h metaLogger (failure_record h s e r2 w2)
              (w2\<lparr>next_id := Suc (next_id w2)\<rparr>)) = Inr True"
          and "s' \<in> set (getSinks h metaLogger)" and "s' \<noteq> s \<and> s' \<notin> b" for s'
        using log'_failure_delivers [OF safe lg mid(1) that(1,2)] that(3) by simp
      from lg have lg': "log' h T metaLogger ''fatal'' ''Failed to emit a log record to sink''
          (PropsObject [(''sink'', JSink s), (''error'', JError e), (''record'', JRecord r2)])
          (insert s b) w2 = (Inr (), w3)"
        by (simp add: failure_message_def failure_props_def)
      from lg obtain mr' where "emit h T metaLogger (failure_record h s e r2 w2) (insert s b)
          (w2\<lparr>next_id := Suc (next_id w2)\<rparr>) = (Inr (), mr', w3)"
        by (auto simp: log'_failure_unfold split: prod.splits)
      then have em': "\<exists>mr'. emit h T metaLogger (failure_record h s e r2 w2) (insert s b)
          (w2\<lparr>next_id := Suc (next_id w2)\<rparr>) = (Inr (), mr', w3)"
        by blast
      have "emit h T this r b w = emit_sinks h T rest r2 b w3"
        using em eq3 by (simp add: sinks)
      moreover have "evs = (fev @ ev1) @ mid @ post"
        using mid(2) by (simp add: evs_def)
      ultimately show ?thesis
        using Inl lg' em' mid(1) by_ deliver by (simp only: sum.case) blast
    qed
    from em1 s1' run1 tr2' mem' tail' show ?thesis
      by blast
  qed
  have c6: "\<forall>s e rr v.
        rec_category (failure_record h s e rr v) = category (h ! metaLogger) \<and>
        rec_level (failure_record h s e rr v) = ''fatal'' \<and>
        message_value (failure_record h s e rr v) =
          Inr ([JStr ''Failed to emit a log record to sink''],
               RawString ''Failed to emit a log record to sink'') \<and>
        (meta_installed h \<longrightarrow>
           rec_category (failure_record h s e rr v) = [''logtape'', ''meta'']) \<and>
        (properties (h ! metaLogger) = None \<and>
         (\<forall>a \<in> set (ancestors h metaLogger). propTransformers (h ! a) = []) \<longrightarrow>
           properties_value h (failure_record h s e rr v) =
             Inr (Some [(''sink'', JSink s), (''error'', JError e), (''record'', JRecord rr)]))"
    using failure_record_facts(4) [of h]
    by (intro allI conjI impI) (auto simp only: failure_record_facts(1,2,3,5))
  from c5 have c5': "\<forall>pre s rest. getSinks h this = pre @ s # rest \<and> s \<notin> b \<longrightarrow>
        (\<exists>r1 w1 res r2 w2 ev1.
           emit h T this r b w = emit_sinks h T (s # rest) r1 b w1 \<and> same_record h r r1 \<and>
           run h (T s (header_of r1)) r1 (w1\<lparr>trace := trace w1 @ [SinkCall s r1]\<rparr>)
             = (res, r2, w2) \<and>
           trace w2 = trace w @ ev1 \<and> SinkCall s r1 \<in> set ev1 \<and>
           (case res of
              Inr u \<Rightarrow>
                emit h T this r b w = emit_sinks h T rest r2 b w2 \<and> (\<exists>post. evs = ev1 @ post)
            | Inl e \<Rightarrow>
                (\<exists>w3 mid post.
                   log' h T metaLogger ''fatal'' ''Failed to emit a log record to sink''
                     (PropsObject
                        [(''sink'', JSink s), (''error'', JError e), (''record'', JRecord r2)])
                     (insert s b) w2 = (Inr (), w3) \<and>
                   (\<exists>mr'. emit h T metaLogger (failure_record h s e r2 w2) (insert s b)
                            (w2\<lparr>next_id := Suc (next_id w2)\<rparr>) = (Inr (), mr', w3)) \<and>
                   trace w3 = trace w2 @ mid \<and> evs = ev1 @ mid @ post \<and>
                   emit h T this r b w = emit_sinks h T rest r2 b w3 \<and>
                   (\<forall>s' rr. SinkCall s' rr \<in> set mid \<longrightarrow> s' \<noteq> s \<and> s' \<notin> b) \<and>
                   (fst (filter_logger h metaLogger (failure_record h s e r2 w2)
                           (w2\<lparr>next_id := Suc (next_id w2)\<rparr>)) = Inr True \<longrightarrow>
                      (\<forall>s' \<in> set (getSinks h metaLogger). s' \<noteq> s \<and> s' \<notin> b \<longrightarrow>
                         (\<exists>mr. SinkCall s' mr \<in> set mid \<and>
                               same_record h (failure_record h s e r2 w2) mr))))))"
    by (intro allI impI) (elim conjE, rule c5)
  from c1 tr c3 c4 c5' c6 show ?thesis
    by (intro exI [of _ r'], intro exI [of _ w'], intro exI [of _ evs]) (intro conjI)
qed


lemma level_filter_simps:
  "level_filter ''warning'' \<lparr>h_category = c, h_level = ''fatal'', h_timestamp = t\<rparr> = Ret True"
  "level_filter ''warning'' \<lparr>h_category = c, h_level = ''error'', h_timestamp = t\<rparr> = Ret True"
  "level_filter ''error'' \<lparr>h_category = c, h_level = ''error'', h_timestamp = t\<rparr> = Ret True"
  by (simp_all add: level_filter_def toFilter_def getLevelFilter_def getLevelIndex_def
      levelsOrderMap_simps)

lemma emit_scenario_meta_filter:
  "filter_logger (emit_scenario ss) metaLogger (failure_record (emit_scenario ss) s e r w) v =
     (Inr True, failure_record (emit_scenario ss) s e r w, v)"
  by (simp add: filter_logger.simps parent_of_def metaLogger_eq emit_scenario_def
      blank_logger_def header_of_def level_filter_simps failure_record_def eager_record_def)

lemma meta_filter_safe_scenario: "meta_filter_safe (emit_scenario ss)"
  unfolding meta_filter_safe_def
  by (intro allI exI [of _ True]) (simp add: emit_scenario_meta_filter)

lemma emit_scenario_filter:
  "filter_logger (emit_scenario ss) 5 (fixture ''error'') w = (Inr True, fixture ''error'', w)"
  by (simp add: filter_logger.simps parent_of_def emit_scenario_def
      blank_logger_def header_of_def level_filter_simps fixture_def)

lemma emit_scenario_sinks:
  "getSinks (emit_scenario [10, 14]) 5 = [10] @ 14 # [12, 13, 14]"
  "getSinks (emit_scenario [10, 14]) metaLogger = [10, 14]"
  by (simp_all add: getSinks.simps parent_of_def emit_scenario_def blank_logger_def
      metaLogger_eq)

text \<open>
  The scenario of the test: the sink of \<^verbatim>\<open>foo.bar.baz\<close> throws, and the sink of the
  root gets the record and then the record of the failure.  With the throwing sink at the
  root as well, and one sink bypassed, each of its two failures is logged once.
\<close>

lemma emit_scenario_trace:
  "emit (emit_scenario [10]) emit_sink_table 5 (fixture ''error'') {} world0 =
     (Inr (), fixture ''error'',
      world0\<lparr>trace :=
          [SinkCall 10 (fixture ''error''), SinkCall 12 (fixture ''error''),
           SinkCall 13 (fixture ''error''), SinkCall 14 (fixture ''error''),
           SinkCall 10 (meta_record 1)],
        next_id := 2\<rparr>)"
  by (simp add: emit.simps emit_scenario_filter)
    (simp add: emit.simps emit_sinks.simps log'.simps getSinks.simps filter_logger.simps
      parent_of_def metaLogger_eq emit_scenario_def blank_logger_def emit_sink_table_def
      header_of_def level_filter_simps fixture_def world0_def meta_record_def)

lemma emit_scenario_trace_twice:
  "emit (emit_scenario [10, 14]) emit_sink_table 5 (fixture ''error'') {12} world0 =
     (Inr (), fixture ''error'',
      world0\<lparr>trace :=
          [SinkCall 10 (fixture ''error''), SinkCall 14 (fixture ''error''),
           SinkCall 10 (meta_record 1),
           SinkCall 13 (fixture ''error''), SinkCall 14 (fixture ''error''),
           SinkCall 10 (meta_record 2)],
        next_id := 3\<rparr>)"
  by (simp add: emit.simps emit_scenario_filter)
    (simp add: emit.simps emit_sinks.simps log'.simps getSinks.simps filter_logger.simps
      parent_of_def metaLogger_eq emit_scenario_def blank_logger_def emit_sink_table_def
      header_of_def level_filter_simps fixture_def world0_def meta_record_def)

lemma emit_scenario_meta:
  "meta_installed (emit_scenario ss)"
  "properties (emit_scenario ss ! metaLogger) = None"
  "ancestors (emit_scenario ss) metaLogger = [2, 1, 0]"
  "propTransformers (emit_scenario ss ! 2) = []"
  "propTransformers (emit_scenario ss ! 1) = []"
  "propTransformers (emit_scenario ss ! 0) = []"
  by (simp_all add: meta_installed_def metaLogger_eq emit_scenario_def blank_logger_def
      metaLoggerCategory_def getCategoryList_def ancestors.simps parent_of_def)

lemma emit_meta_filter_throws:
  "emit (emit_scenario_meta_filter [] [throwing_filter]) emit_sink_table 3 (fixture ''error'') {}
       world0 =
     (Inl (TypeError ''filter failed''), fixture ''error'',
      world0\<lparr>trace := [SinkCall 10 (fixture ''error''), SinkCall 14 (fixture ''error'')],
        next_id := 2\<rparr>)"
  by (simp add: emit.simps emit_sinks.simps log'.simps getSinks.simps filter_logger.simps
      parent_of_def metaLogger_eq emit_scenario_meta_filter_def blank_logger_def
      emit_sink_table_def header_of_def throwing_filter_def fixture_def world0_def)

lemma emit_root_filter_throws:
  "emit (emit_scenario_meta_filter [meta_throwing_filter] []) emit_sink_table 3
       (fixture ''error'') {} world0 =
     (Inl (TypeError ''filter failed''), fixture ''error'',
      world0\<lparr>trace := [SinkCall 10 (fixture ''error''), SinkCall 14 (fixture ''error'')],
        next_id := 2\<rparr>)"
  by (simp add: emit.simps emit_sinks.simps log'.simps getSinks.simps filter_logger.simps
      parent_of_def metaLogger_eq emit_scenario_meta_filter_def blank_logger_def
      emit_sink_table_def header_of_def meta_throwing_filter_def fixture_def world0_def)

lemma emit_root_filter_accepts:
  "filter_logger (emit_scenario_meta_filter [meta_throwing_filter] []) 3 (fixture ''error'')
       world0 = (Inr True, fixture ''error'', world0)"
  "filter_logger (emit_scenario_meta_filter [] [throwing_filter]) 3 (fixture ''error'')
       world0 = (Inr True, fixture ''error'', world0)"
  by (simp_all add: filter_logger.simps parent_of_def emit_scenario_meta_filter_def
      blank_logger_def header_of_def meta_throwing_filter_def fixture_def)


theorem emit_contains_sink_failure_witness:
  "meta_filter_safe (emit_scenario [10, 14]) \<and>
   filter_logger (emit_scenario [10, 14]) 5 (fixture ''error'') world0 =
     (Inr True, fixture ''error'', world0) \<and>
   rec_id (fixture ''error'') < next_id world0 \<and>
   getSinks (emit_scenario [10, 14]) 5 = [10] @ 14 # [12, 13, 14] \<and>
   getSinks (emit_scenario [10, 14]) metaLogger = [10, 14] \<and>
   (\<exists>r' w' evs.
      emit (emit_scenario [10, 14]) emit_sink_table 5 (fixture ''error'') {12} world0 =
        (Inr (), r', w') \<and>
      trace w' = trace world0 @ evs \<and>
      (\<exists>rr. SinkCall 13 rr \<in> set evs \<and> same_record (emit_scenario [10, 14]) (fixture ''error'') rr) \<and>
      (\<exists>r1 w1 r2 w2 w3 ev1 mid post.
         emit (emit_scenario [10, 14]) emit_sink_table 5 (fixture ''error'') {12} world0 =
           emit_sinks (emit_scenario [10, 14]) emit_sink_table (14 # [12, 13, 14]) r1 {12} w1 \<and>
         same_record (emit_scenario [10, 14]) (fixture ''error'') r1 \<and>
         run (emit_scenario [10, 14]) (emit_sink_table 14 (header_of r1)) r1
             (w1\<lparr>trace := trace w1 @ [SinkCall 14 r1]\<rparr>) =
           (Inl (Error ''This is an error''), r2, w2) \<and>
         SinkCall 14 r1 \<in> set ev1 \<and>
         log' (emit_scenario [10, 14]) emit_sink_table metaLogger ''fatal''
             ''Failed to emit a log record to sink''
             (PropsObject
                [(''sink'', JSink 14), (''error'', JError (Error ''This is an error'')),
                 (''record'', JRecord r2)])
             (insert 14 {12}) w2 = (Inr (), w3) \<and>
         trace w3 = trace w2 @ mid \<and> evs = ev1 @ mid @ post \<and>
         emit (emit_scenario [10, 14]) emit_sink_table 5 (fixture ''error'') {12} world0 =
           emit_sinks (emit_scenario [10, 14]) emit_sink_table [12, 13, 14] r2 {12} w3 \<and>
         (\<exists>mr. SinkCall 10 mr \<in> set mid \<and>
            same_record (emit_scenario [10, 14])
              (failure_record (emit_scenario [10, 14]) 14 (Error ''This is an error'') r2 w2)
              mr))) \<and>
   rec_category
       (failure_record (emit_scenario [10, 14]) 14 (Error ''This is an error'')
          (fixture ''error'') world0) = [''logtape'', ''meta''] \<and>
   rec_level
       (failure_record (emit_scenario [10, 14]) 14 (Error ''This is an error'')
          (fixture ''error'') world0) = ''fatal'' \<and>
   message_value
       (failure_record (emit_scenario [10, 14]) 14 (Error ''This is an error'')
          (fixture ''error'') world0) =
     Inr ([JStr ''Failed to emit a log record to sink''],
          RawString ''Failed to emit a log record to sink'') \<and>
   properties_value (emit_scenario [10, 14])
       (failure_record (emit_scenario [10, 14]) 14 (Error ''This is an error'')
          (fixture ''error'') world0) =
     Inr (Some [(''sink'', JSink 14), (''error'', JError (Error ''This is an error'')),
                (''record'', JRecord (fixture ''error''))]) \<and>
   emit (emit_scenario [10, 14]) emit_sink_table 5 (fixture ''error'') {12} world0 =
     (Inr (), fixture ''error'',
      world0\<lparr>trace :=
          [SinkCall 10 (fixture ''error''), SinkCall 14 (fixture ''error''),
           SinkCall 10 (meta_record 1),
           SinkCall 13 (fixture ''error''), SinkCall 14 (fixture ''error''),
           SinkCall 10 (meta_record 2)],
        next_id := 3\<rparr>)"
proof -
  let ?h = "emit_scenario [10, 14]" and ?r = "fixture ''error''" and ?T = emit_sink_table
  let ?e = "Error ''This is an error''"
  have h1: "meta_filter_safe ?h"
    by (rule meta_filter_safe_scenario)
  have h2: "filter_logger ?h 5 ?r world0 = (Inr True, ?r, world0)"
    by (rule emit_scenario_filter)
  have h3: "rec_id ?r < next_id world0"
    by (simp add: fixture_def world0_def)
  have h4: "getSinks ?h 5 = [10] @ 14 # [12, 13, 14]"
    by (rule emit_scenario_sinks(1))
  have h5: "(14::nat) \<notin> {12}"
    by simp
  have h6: "13 \<in> set (getSinks ?h 5)" "(13::nat) \<notin> {12}"
    by (simp_all add: h4)
  have h7: "10 \<in> set (getSinks ?h metaLogger)" "(10::nat) \<noteq> 14 \<and> (10::nat) \<notin> {12}"
    by (simp_all add: emit_scenario_sinks(2))
  have h8: "properties (?h ! metaLogger) = None \<and>
      (\<forall>a \<in> set (ancestors ?h metaLogger). propTransformers (?h ! a) = [])"
    using emit_scenario_meta(5) [of "[10, 14]"] by (simp add: emit_scenario_meta)
  from emit_contains_sink_failure [OF h1 h2 h3, of ?T "{12}"]
  obtain r' w' evs where
    em: "emit ?h ?T 5 ?r {12} world0 = (Inr (), r', w')"
    and tr: "trace w' = trace world0 @ evs"
    and c4: "\<forall>s \<in> set (getSinks ?h 5). s \<notin> {12} \<longrightarrow>
        (\<exists>rr. SinkCall s rr \<in> set evs \<and> same_record ?h ?r rr)"
    and c5: "\<forall>pre s rest. getSinks ?h 5 = pre @ s # rest \<and> s \<notin> {12} \<longrightarrow>
        (\<exists>r1 w1 res r2 w2 ev1.
           emit ?h ?T 5 ?r {12} world0 = emit_sinks ?h ?T (s # rest) r1 {12} w1 \<and>
           same_record ?h ?r r1 \<and>
           run ?h (?T s (header_of r1)) r1 (w1\<lparr>trace := trace w1 @ [SinkCall s r1]\<rparr>)
             = (res, r2, w2) \<and>
           trace w2 = trace world0 @ ev1 \<and> SinkCall s r1 \<in> set ev1 \<and>
           (case res of
              Inr u \<Rightarrow>
                emit ?h ?T 5 ?r {12} world0 = emit_sinks ?h ?T rest r2 {12} w2 \<and>
                (\<exists>post. evs = ev1 @ post)
            | Inl e \<Rightarrow>
                (\<exists>w3 mid post.
                   log' ?h ?T metaLogger ''fatal'' ''Failed to emit a log record to sink''
                     (PropsObject
                        [(''sink'', JSink s), (''error'', JError e), (''record'', JRecord r2)])
                     (insert s {12}) w2 = (Inr (), w3) \<and>
                   (\<exists>mr'. emit ?h ?T metaLogger (failure_record ?h s e r2 w2) (insert s {12})
                            (w2\<lparr>next_id := Suc (next_id w2)\<rparr>) = (Inr (), mr', w3)) \<and>
                   trace w3 = trace w2 @ mid \<and> evs = ev1 @ mid @ post \<and>
                   emit ?h ?T 5 ?r {12} world0 = emit_sinks ?h ?T rest r2 {12} w3 \<and>
                   (\<forall>s' rr. SinkCall s' rr \<in> set mid \<longrightarrow> s' \<noteq> s \<and> s' \<notin> {12}) \<and>
                   (fst (filter_logger ?h metaLogger (failure_record ?h s e r2 w2)
                           (w2\<lparr>next_id := Suc (next_id w2)\<rparr>)) = Inr True \<longrightarrow>
                      (\<forall>s' \<in> set (getSinks ?h metaLogger). s' \<noteq> s \<and> s' \<notin> {12} \<longrightarrow>
                         (\<exists>mr. SinkCall s' mr \<in> set mid \<and>
                               same_record ?h (failure_record ?h s e r2 w2) mr))))))"
    and c6: "\<forall>s e rr v.
        rec_category (failure_record ?h s e rr v) = category (?h ! metaLogger) \<and>
        rec_level (failure_record ?h s e rr v) = ''fatal'' \<and>
        message_value (failure_record ?h s e rr v) =
          Inr ([JStr ''Failed to emit a log record to sink''],
               RawString ''Failed to emit a log record to sink'') \<and>
        (meta_installed ?h \<longrightarrow>
           rec_category (failure_record ?h s e rr v) = [''logtape'', ''meta'']) \<and>
        (properties (?h ! metaLogger) = None \<and>
         (\<forall>a \<in> set (ancestors ?h metaLogger). propTransformers (?h ! a) = []) \<longrightarrow>
           properties_value ?h (failure_record ?h s e rr v) =
             Inr (Some [(''sink'', JSink s), (''error'', JError e), (''record'', JRecord rr)]))"
    by (elim exE conjE) (rule that)
  note d13 = c4 [THEN bspec, OF h6(1), THEN mp, OF h6(2)]
  from c5 [THEN spec [where x = "[10]"], THEN spec [where x = 14],
      THEN spec [where x = "[12, 13, 14]"], THEN mp, OF conjI [OF h4 h5]]
  obtain r1 w1 res r2 w2 ev1 where
    e1: "emit ?h ?T 5 ?r {12} world0 = emit_sinks ?h ?T (14 # [12, 13, 14]) r1 {12} w1"
    and s1: "same_record ?h ?r r1"
    and run1: "run ?h (?T 14 (header_of r1)) r1 (w1\<lparr>trace := trace w1 @ [SinkCall 14 r1]\<rparr>)
      = (res, r2, w2)"
    and mem: "SinkCall 14 r1 \<in> set ev1"
    and tail: "case res of
        Inr u \<Rightarrow>
          emit ?h ?T 5 ?r {12} world0 = emit_sinks ?h ?T [12, 13, 14] r2 {12} w2 \<and>
          (\<exists>post. evs = ev1 @ post)
      | Inl e \<Rightarrow>
          (\<exists>w3 mid post.
             log' ?h ?T metaLogger ''fatal'' ''Failed to emit a log record to sink''
               (PropsObject
                  [(''sink'', JSink 14), (''error'', JError e), (''record'', JRecord r2)])
               (insert 14 {12}) w2 = (Inr (), w3) \<and>
             (\<exists>mr'. emit ?h ?T metaLogger (failure_record ?h 14 e r2 w2) (insert 14 {12})
                      (w2\<lparr>next_id := Suc (next_id w2)\<rparr>) = (Inr (), mr', w3)) \<and>
             trace w3 = trace w2 @ mid \<and> evs = ev1 @ mid @ post \<and>
             emit ?h ?T 5 ?r {12} world0 = emit_sinks ?h ?T [12, 13, 14] r2 {12} w3 \<and>
             (\<forall>s' rr. SinkCall s' rr \<in> set mid \<longrightarrow> s' \<noteq> 14 \<and> s' \<notin> {12}) \<and>
             (fst (filter_logger ?h metaLogger (failure_record ?h 14 e r2 w2)
                     (w2\<lparr>next_id := Suc (next_id w2)\<rparr>)) = Inr True \<longrightarrow>
                (\<forall>s' \<in> set (getSinks ?h metaLogger). s' \<noteq> 14 \<and> s' \<notin> {12} \<longrightarrow>
                   (\<exists>mr. SinkCall s' mr \<in> set mid \<and>
                         same_record ?h (failure_record ?h 14 e r2 w2) mr))))"
    by (elim exE conjE) (rule that)
  from run1 have res: "res = Inl ?e"
    by (simp add: emit_sink_table_def)
  from run1 have run1': "run ?h (?T 14 (header_of r1)) r1
      (w1\<lparr>trace := trace w1 @ [SinkCall 14 r1]\<rparr>) = (Inl ?e, r2, w2)"
    by (simp add: res)
  from tail [unfolded res sum.case]
  obtain w3 mid post where
    lg: "log' ?h ?T metaLogger ''fatal'' ''Failed to emit a log record to sink''
           (PropsObject [(''sink'', JSink 14), (''error'', JError ?e), (''record'', JRecord r2)])
           (insert 14 {12}) w2 = (Inr (), w3)"
    and tr3: "trace w3 = trace w2 @ mid" and ev: "evs = ev1 @ mid @ post"
    and e3: "emit ?h ?T 5 ?r {12} world0 = emit_sinks ?h ?T [12, 13, 14] r2 {12} w3"
    and dl: "fst (filter_logger ?h metaLogger (failure_record ?h 14 ?e r2 w2)
                     (w2\<lparr>next_id := Suc (next_id w2)\<rparr>)) = Inr True \<longrightarrow>
                (\<forall>s' \<in> set (getSinks ?h metaLogger). s' \<noteq> 14 \<and> s' \<notin> {12} \<longrightarrow>
                   (\<exists>mr. SinkCall s' mr \<in> set mid \<and>
                         same_record ?h (failure_record ?h 14 ?e r2 w2) mr))"
    by (elim exE conjE) (rule that)
  have acc: "fst (filter_logger ?h metaLogger (failure_record ?h 14 ?e r2 w2)
      (w2\<lparr>next_id := Suc (next_id w2)\<rparr>)) = Inr True"
    by (simp add: emit_scenario_meta_filter)
  note d10 = dl [THEN mp, OF acc, THEN bspec, OF h7(1), THEN mp, OF h7(2)]
  have inner: "\<exists>r1 w1 r2 w2 w3 ev1 mid post.
         emit ?h ?T 5 ?r {12} world0 = emit_sinks ?h ?T (14 # [12, 13, 14]) r1 {12} w1 \<and>
         same_record ?h ?r r1 \<and>
         run ?h (?T 14 (header_of r1)) r1 (w1\<lparr>trace := trace w1 @ [SinkCall 14 r1]\<rparr>) =
           (Inl ?e, r2, w2) \<and>
         SinkCall 14 r1 \<in> set ev1 \<and>
         log' ?h ?T metaLogger ''fatal'' ''Failed to emit a log record to sink''
             (PropsObject [(''sink'', JSink 14), (''error'', JError ?e), (''record'', JRecord r2)])
             (insert 14 {12}) w2 = (Inr (), w3) \<and>
         trace w3 = trace w2 @ mid \<and> evs = ev1 @ mid @ post \<and>
         emit ?h ?T 5 ?r {12} world0 = emit_sinks ?h ?T [12, 13, 14] r2 {12} w3 \<and>
         (\<exists>mr. SinkCall 10 mr \<in> set mid \<and>
            same_record ?h (failure_record ?h 14 ?e r2 w2) mr)"
    by (insert e1 s1 run1' mem lg tr3 ev e3 d10, rule exI [of _ r1], rule exI [of _ w1],
        rule exI [of _ r2], rule exI [of _ w2], rule exI [of _ w3], rule exI [of _ ev1],
        rule exI [of _ mid], rule exI [of _ post])
      (intro conjI)
  from em tr d13 inner
  have outer: "\<exists>r' w' evs.
      emit ?h ?T 5 ?r {12} world0 = (Inr (), r', w') \<and>
      trace w' = trace world0 @ evs \<and>
      (\<exists>rr. SinkCall 13 rr \<in> set evs \<and> same_record ?h ?r rr) \<and>
      (\<exists>r1 w1 r2 w2 w3 ev1 mid post.
         emit ?h ?T 5 ?r {12} world0 = emit_sinks ?h ?T (14 # [12, 13, 14]) r1 {12} w1 \<and>
         same_record ?h ?r r1 \<and>
         run ?h (?T 14 (header_of r1)) r1 (w1\<lparr>trace := trace w1 @ [SinkCall 14 r1]\<rparr>) =
           (Inl ?e, r2, w2) \<and>
         SinkCall 14 r1 \<in> set ev1 \<and>
         log' ?h ?T metaLogger ''fatal'' ''Failed to emit a log record to sink''
             (PropsObject [(''sink'', JSink 14), (''error'', JError ?e), (''record'', JRecord r2)])
             (insert 14 {12}) w2 = (Inr (), w3) \<and>
         trace w3 = trace w2 @ mid \<and> evs = ev1 @ mid @ post \<and>
         emit ?h ?T 5 ?r {12} world0 = emit_sinks ?h ?T [12, 13, 14] r2 {12} w3 \<and>
         (\<exists>mr. SinkCall 10 mr \<in> set mid \<and>
            same_record ?h (failure_record ?h 14 ?e r2 w2) mr))"
    by (intro exI [of _ r'], intro exI [of _ w'], intro exI [of _ evs]) (intro conjI)
  note c6i = c6 [THEN spec [where x = 14], THEN spec [where x = ?e], THEN spec [where x = ?r],
      THEN spec [where x = world0]]
  note f2 = c6i [THEN conjunct2, THEN conjunct1]
  note f3 = c6i [THEN conjunct2, THEN conjunct2, THEN conjunct1]
  note f4 = c6i [THEN conjunct2, THEN conjunct2, THEN conjunct2, THEN conjunct1, THEN mp,
      OF emit_scenario_meta(1)]
  note f5 = c6i [THEN conjunct2, THEN conjunct2, THEN conjunct2, THEN conjunct2, THEN mp, OF h8]
  from h1 h2 h3 h4 emit_scenario_sinks(2) outer f4 f2 f3 f5 emit_scenario_trace_twice
  show ?thesis
    by (intro conjI)
qed

text \<open>
  When a filter that decides for the meta logger throws on the record of the failure, the
  failure of the sink is not contained: \<^verbatim>\<open>_log\<close> is called outside any \<^verbatim>\<open>try\<close>, so the
  exception of the filter leaves \<^verbatim>\<open>emit\<close>, and the record of the failure reaches no
  sink.  The filter may be one of the meta logger, or one of the root that accepts the
  record itself.
\<close>

theorem emit_sink_failure_escapes:
  "getSinks (emit_scenario_meta_filter [] [throwing_filter]) 3 = [10, 14] \<and>
   emit_sink_table 14 (header_of (fixture ''error'')) = Throw (Error ''This is an error'') \<and>
   filter_logger (emit_scenario_meta_filter [] [throwing_filter]) 3 (fixture ''error'') world0 =
     (Inr True, fixture ''error'', world0) \<and>
   emit (emit_scenario_meta_filter [] [throwing_filter]) emit_sink_table 3 (fixture ''error'') {}
       world0 =
     (Inl (TypeError ''filter failed''), fixture ''error'',
      world0\<lparr>trace := [SinkCall 10 (fixture ''error''), SinkCall 14 (fixture ''error'')],
        next_id := 2\<rparr>) \<and>
   filter_logger (emit_scenario_meta_filter [meta_throwing_filter] []) 3 (fixture ''error'')
       world0 = (Inr True, fixture ''error'', world0) \<and>
   emit (emit_scenario_meta_filter [meta_throwing_filter] []) emit_sink_table 3
       (fixture ''error'') {} world0 =
     (Inl (TypeError ''filter failed''), fixture ''error'',
      world0\<lparr>trace := [SinkCall 10 (fixture ''error''), SinkCall 14 (fixture ''error'')],
        next_id := 2\<rparr>)"
  using emit_meta_filter_throws emit_root_filter_throws emit_root_filter_accepts
  by (simp add: emit_sink_table_def getSinks.simps parent_of_def emit_scenario_meta_filter_def
      blank_logger_def)


subsection \<open>Eager calls without properties\<close>

lemma eager_record_sel:
  "rec_id (eager_record h this l m p w) = next_id w"
  "rec_props (eager_record h this l m p w) = PropsGetter this m p"
  "rec_msg (eager_record h this l m p w) = MsgData [JStr m] (RawString m)"
  "rec_level (eager_record h this l m p w) = l"
  by (simp_all add: eager_record_def)

lemma log_eager_events:
  assumes "log' h T this l m p b w = (res, w')"
  shows "\<exists>evs. trace w' = trace w @ evs \<and>
    (\<forall>c. cb_calls w' c =
       cb_calls w c + props_calls h c (eager_record h this l m p w) evs) \<and>
    (\<forall>s rr. SinkCall s rr \<in> set evs \<and> rec_id rr = next_id w \<longrightarrow>
       properties_value h rr = properties_value h (eager_record h this l m p w)) \<and>
    (\<forall>x. PropsRead (next_id w) x \<in> set evs \<longrightarrow>
       x = properties_value h (eager_record h this l m p w))"
proof -
  let ?r = "eager_record h this l m p w"
  from emit_run_inv_aux(3) [of h T this l m p b w] assms
  obtain r' where "run_inv h b ?r (w\<lparr>next_id := Suc (next_id w)\<rparr>) r' w'"
    by blast
  then obtain evs where evs: "trace w' = trace w @ evs"
    "\<forall>ev \<in> set evs. ev_ok h b ?r (Suc (next_id w)) ev"
    "\<forall>c. cb_calls w' c = cb_calls w c + props_calls h c ?r evs + msg_calls c ?r evs"
    unfolding run_inv_def by auto
  have "\<forall>c. msg_calls c ?r evs = 0"
    by (simp add: msg_calls_def eager_record_sel)
  with evs(3) have calls: "\<forall>c. cb_calls w' c = cb_calls w c + props_calls h c ?r evs"
    by simp
  have sinks: "properties_value h rr = properties_value h ?r"
    if "SinkCall s rr \<in> set evs \<and> rec_id rr = next_id w" for s rr
  proof -
    from that evs(2) have "ev_ok h b ?r (Suc (next_id w)) (SinkCall s rr)"
      by blast
    with that have "same_record h ?r rr"
      by simp
    then show ?thesis
      by (simp add: same_record_def)
  qed
  have reads: "x = properties_value h ?r" if "PropsRead (next_id w) x \<in> set evs" for x
  proof -
    from that evs(2) have "ev_ok h b ?r (Suc (next_id w)) (PropsRead (next_id w) x)"
      by blast
    then show ?thesis
      by simp
  qed
  from evs(1) calls sinks reads show ?thesis
    by blast
qed

text \<open>
  Claim C9, as it holds: an eager log call without the properties argument, on a logger
  without bound properties, merges \<^verbatim>\<open>undefined\<close> with \<^verbatim>\<open>undefined\<close> to \<^verbatim>\<open>undefined\<close>,
  and when neither the logger nor one of its ancestors has a property transformer,
  every sink gets a record whose \<^verbatim>\<open>properties\<close> reads as \<^verbatim>\<open>undefined\<close>, and it is the
  value of every read during the call.
\<close>

theorem eager_log_without_properties:
  assumes "properties (h ! this) = None"
    and "\<forall>a \<in> set (ancestors h this). propTransformers (h ! a) = []"
    and "log h T this level (Eager message PropsUndefined) w = (res, w')"
  shows "mergeProperties (properties (h ! this)) (arg_value PropsUndefined) = None \<and>
    (\<exists>evs. trace w' = trace w @ evs \<and>
       (\<forall>s rr. SinkCall s rr \<in> set evs \<and> rec_id rr = next_id w \<longrightarrow>
          (\<forall>w0. fst (read_properties h rr w0) = Inr None)) \<and>
       (\<forall>x. PropsRead (next_id w) x \<in> set evs \<longrightarrow> x = Inr None))"
proof -
  let ?r = "eager_record h this level message PropsUndefined w"
  from assms(3) have "log' h T this level message PropsUndefined {} w = (res, w')"
    by (simp add: log_def)
  from log_eager_events [OF this] obtain evs where evs: "trace w' = trace w @ evs"
    "\<forall>s rr. SinkCall s rr \<in> set evs \<and> rec_id rr = next_id w \<longrightarrow>
       properties_value h rr = properties_value h ?r"
    "\<forall>x. PropsRead (next_id w) x \<in> set evs \<longrightarrow> x = properties_value h ?r"
    by blast
  have merge: "mergeProperties (properties (h ! this)) (arg_value PropsUndefined) = None"
    using assms(1) by simp
  have val: "properties_value h ?r = Inr None"
    using assms(1) propTransform_no_transformers [OF assms(2)]
    by (simp add: properties_value_def eager_record_sel raw_record_def)
  have "fst (read_properties h rr w0) = Inr None"
    if "SinkCall s rr \<in> set evs \<and> rec_id rr = next_id w" for s rr w0
  proof -
    from that evs(2) val have "properties_value h rr = Inr None"
      by metis
    moreover obtain v r1 w1 where "read_properties h rr w0 = (v, r1, w1)"
      by (cases "read_properties h rr w0")
    ultimately show ?thesis
      using read_properties_value [of h rr w0 v r1 w1] by simp
  qed
  with evs(1,3) val merge show ?thesis
    by auto
qed

lemma ancestors_log_scenario: "ancestors (log_scenario fs ts ss) 3 = [3, 0]"
  by (simp add: ancestors.simps [of _ 3] ancestors.simps [of _ 0] parent_of_def
      log_scenario_def blank_logger_def)

lemma log_no_properties_trace:
  "log (log_scenario [] [] [20]) log_sink_table 3 ''info''
       (Eager ''Hello, world!'' PropsUndefined) world0 =
     (Inr (),
      world0\<lparr>next_id := 2,
        trace := [SinkCall 20 (hello_record ''info'' PropsUndefined), PropsRead 1 (Inr None),
                  PropsRead 1 (Inr None)]\<rparr>)"
  by (simp add: log_def log'.simps emit.simps emit_sinks.simps getSinks.simps
      filter_logger.simps propTransform.simps parent_of_def log_scenario_def blank_logger_def
      log_sink_table_def header_of_def world0_def hello_record_def read_properties_def
      getProperties_def raw_record_def)

theorem eager_log_without_properties_witness:
  "properties (log_scenario [] [] [20] ! 3) = None \<and>
   ancestors (log_scenario [] [] [20]) 3 = [3, 0] \<and>
   propTransformers (log_scenario [] [] [20] ! 3) = [] \<and>
   propTransformers (log_scenario [] [] [20] ! 0) = [] \<and>
   log (log_scenario [] [] [20]) log_sink_table 3 ''info''
       (Eager ''Hello, world!'' PropsUndefined) world0 =
     (Inr (),
      world0\<lparr>next_id := 2,
        trace := [SinkCall 20 (hello_record ''info'' PropsUndefined), PropsRead 1 (Inr None),
                  PropsRead 1 (Inr None)]\<rparr>) \<and>
   (\<forall>w0. fst (read_properties (log_scenario [] [] [20])
                (hello_record ''info'' PropsUndefined) w0) = Inr None)"
proof -
  let ?h = "log_scenario [] [] [20]"
  have h1: "properties (?h ! 3) = None"
    by (simp add: log_scenario_def blank_logger_def)
  have h2: "\<forall>a \<in> set (ancestors ?h 3). propTransformers (?h ! a) = []"
    by (simp add: ancestors_log_scenario) (simp add: log_scenario_def blank_logger_def)
  note t = eager_log_without_properties [OF h1 h2 log_no_properties_trace]
  then obtain evs where evs:
    "trace (world0\<lparr>next_id := 2,
        trace := [SinkCall 20 (hello_record ''info'' PropsUndefined), PropsRead 1 (Inr None),
                  PropsRead 1 (Inr None)]\<rparr>) = trace world0 @ evs"
    "\<forall>s rr. SinkCall s rr \<in> set evs \<and> rec_id rr = next_id world0 \<longrightarrow>
          (\<forall>w0. fst (read_properties ?h rr w0) = Inr None)"
    by blast
  from evs(1) have "SinkCall 20 (hello_record ''info'' PropsUndefined) \<in> set evs"
    by (auto simp: world0_def)
  moreover have "rec_id (hello_record ''info'' PropsUndefined) = next_id world0"
    by (simp add: hello_record_def world0_def)
  ultimately have "\<forall>w0. fst (read_properties ?h (hello_record ''info'' PropsUndefined) w0) =
      Inr None"
    using evs(2) by blast
  moreover have "propTransformers (?h ! 3) = []" "propTransformers (?h ! 0) = []"
    by (simp_all add: log_scenario_def blank_logger_def)
  ultimately show ?thesis
    using h1 ancestors_log_scenario [of "[]" "[]" "[20]"] log_no_properties_trace
    by (intro conjI)
qed

text \<open>
  Claim C9 as the specification has it fails when a property transformer is in reach: the
  root has the transformer \<open>add_app\<close>, the logger \<^verbatim>\<open>foo\<close> has no bound properties and
  the call gives none, and the sink reads properties that are not \<^verbatim>\<open>undefined\<close>.
\<close>

theorem eager_log_transformer_gives_properties:
  "properties (log_scenario [] [add_app] [20] ! 3) = None \<and>
   log (log_scenario [] [add_app] [20]) log_sink_table 3 ''info''
       (Eager ''Hello, world!'' PropsUndefined) world0 =
     (Inr (),
      world0\<lparr>next_id := 2,
        trace := [SinkCall 20 (hello_record ''info'' PropsUndefined),
                  PropsRead 1 (Inr (Some [(''app'', JStr ''demo'')])),
                  PropsRead 1 (Inr (Some [(''app'', JStr ''demo'')]))]\<rparr>)"
  by (simp add: log_def log'.simps emit.simps emit_sinks.simps getSinks.simps
      filter_logger.simps propTransform.simps parent_of_def log_scenario_def blank_logger_def
      log_sink_table_def header_of_def world0_def hello_record_def read_properties_def
      getProperties_def raw_record_def add_app_def spread_def)


subsection \<open>Calls with a callback\<close>


































end
